theory Spec2Isabelle
  imports Main "HOL-Library.Sublist"
begin

section \<open>JSON values and \<open>JSON.parse\<close>\<close>

text \<open>
  The program calls the JavaScript built-in \<open>JSON.parse\<close> in its fragment decoder and in
  its response extractor. The built-in is modelled here after the JSON grammar (ECMA-404)
  as a recursive-descent parser that returns \<open>None\<close> where the built-in raises
  \<open>SyntaxError\<close>.

  A text is an Isabelle \<open>string\<close>: every \<open>char\<close> stands for one UTF-16 code unit below
  256. The contents of a parsed string literal are code units as natural numbers, since
  a \<open>\u\<close> escape can denote any of them. A number keeps its sign, its decimal digits and
  its decimal exponent: \<open>JNumber neg m e\<close> denotes \<open>(-1)^neg * m * 10^e\<close>. An object keeps
  its members in source order, duplicates included; reading a property takes the last
  member of that name, as the built-in does. Engine limits (nesting depth, string length)
  are not modelled.
\<close>

type_synonym js_string = "nat list"

datatype json =
    JNull
  | JBool bool
  | JNumber bool nat int
  | JString js_string
  | JArray "json list"
  | JObject "(js_string \<times> json) list"

definition is_json_ws :: "char \<Rightarrow> bool" where
  "is_json_ws c = (c = CHR '' '' \<or> c = CHR 0x09 \<or> c = CHR 0x0A \<or> c = CHR 0x0D)"

definition skip_ws :: "string \<Rightarrow> string" where
  "skip_ws s = dropWhile is_json_ws s"

definition is_digit :: "char \<Rightarrow> bool" where
  "is_digit c = (48 \<le> (of_char c :: nat) \<and> (of_char c :: nat) \<le> 57)"

definition digit_val :: "char \<Rightarrow> nat" where
  "digit_val c = of_char c - 48"

definition digits_val :: "string \<Rightarrow> nat" where
  "digits_val ds = foldl (\<lambda>n c. 10 * n + digit_val c) 0 ds"

definition hex_val :: "char \<Rightarrow> nat option" where
  "hex_val c =
     (let n = (of_char c :: nat) in
      if 48 \<le> n \<and> n \<le> 57 then Some (n - 48)
      else if 65 \<le> n \<and> n \<le> 70 then Some (n - 55)
      else if 97 \<le> n \<and> n \<le> 102 then Some (n - 87)
      else None)"

fun hex4 :: "string \<Rightarrow> nat option" where
  "hex4 (a # b # c # d # rest) =
     (case (hex_val a, hex_val b, hex_val c, hex_val d) of
        (Some w, Some x, Some y, Some z) \<Rightarrow> Some (((w * 16 + x) * 16 + y) * 16 + z)
      | _ \<Rightarrow> None)"
| "hex4 _ = None"

text \<open>The character after a backslash: quote, backslash, slash, b, f, n, r, t.\<close>

definition unescape :: "char \<Rightarrow> nat option" where
  "unescape e =
     (if e = CHR 0x22 then Some 34
      else if e = CHR 0x5C then Some 92
      else if e = CHR ''/'' then Some 47
      else if e = CHR ''b'' then Some 8
      else if e = CHR ''f'' then Some 12
      else if e = CHR ''n'' then Some 10
      else if e = CHR ''r'' then Some 13
      else if e = CHR ''t'' then Some 9
      else None)"

definition cons_unit ::
  "nat \<Rightarrow> (js_string \<times> string) option \<Rightarrow> (js_string \<times> string) option" where
  "cons_unit u r = (case r of None \<Rightarrow> None | Some (us, rest) \<Rightarrow> Some (u # us, rest))"

text \<open>
  The body of a string literal, after its opening quote: up to the closing quote, with
  escapes decoded; a control character (below U+0020) is refused.
\<close>

fun parse_chars :: "string \<Rightarrow> (js_string \<times> string) option" where
  "parse_chars [] = None"
| "parse_chars (c # cs) =
     (if c = CHR 0x22 then Some ([], cs)
      else if c = CHR 0x5C then
        (case cs of
           [] \<Rightarrow> None
         | e # cs' \<Rightarrow>
             if e = CHR ''u'' then
               (case hex4 cs' of None \<Rightarrow> None
                | Some u \<Rightarrow> cons_unit u (parse_chars (drop 4 cs')))
             else
               (case unescape e of None \<Rightarrow> None
                | Some u \<Rightarrow> cons_unit u (parse_chars cs')))
      else if (of_char c :: nat) < 32 then None
      else cons_unit (of_char c) (parse_chars cs))"

text \<open>
  A number: an optional minus, an integer part (a single \<open>0\<close>, or digits not starting
  with \<open>0\<close>), an optional fraction, an optional exponent.
\<close>

definition parse_number :: "string \<Rightarrow> (json \<times> string) option" where
  "parse_number s =
     (let neg = (take 1 s = ''-'');
          s1 = (if neg then drop 1 s else s);
          ip = (if take 1 s1 = ''0'' then ''0'' else takeWhile is_digit s1);
          s2 = drop (length ip) s1;
          has_frac = (take 1 s2 = ''.'');
          fp = (if has_frac then takeWhile is_digit (drop 1 s2) else []);
          s3 = (if has_frac then drop (1 + length fp) s2 else s2);
          has_exp = (take 1 s3 = ''e'' \<or> take 1 s3 = ''E'');
          s4 = (if has_exp then drop 1 s3 else s3);
          eneg = (has_exp \<and> take 1 s4 = ''-'');
          s5 = (if has_exp \<and> (take 1 s4 = ''-'' \<or> take 1 s4 = ''+'') then drop 1 s4 else s4);
          ep = (if has_exp then takeWhile is_digit s5 else []);
          s6 = drop (length ep) s5;
          e = (if eneg then - int (digits_val ep) else int (digits_val ep))
      in if ip = [] \<or> (has_frac \<and> fp = []) \<or> (has_exp \<and> ep = []) then None
         else Some (JNumber neg (digits_val (ip @ fp)) (e - int (length fp)), s6))"

text \<open>
  Values, array elements and object members. Every function returns the value read and
  the text left. The tests \<open>length _ < length s\<close> before a nested call make the
  recursion well-founded by construction; they always succeed, as is proved below
  (\<open>parse_elements_unguarded\<close>, \<open>parse_members_unguarded\<close>).
\<close>

lemma length_skip_ws: "length (skip_ws s) \<le> length s"
  by (simp add: skip_ws_def length_dropWhile_le)

function (sequential) parse_value :: "string \<Rightarrow> (json \<times> string) option"
  and parse_elements :: "string \<Rightarrow> (json list \<times> string) option"
  and parse_members :: "string \<Rightarrow> ((js_string \<times> json) list \<times> string) option"
where
  "parse_value [] = None"
| "parse_value (c # cs) =
     (if c = CHR ''{'' then
        (case skip_ws cs of
           [] \<Rightarrow> None
         | d # rest \<Rightarrow>
             if d = CHR ''}'' then Some (JObject [], rest)
             else (case parse_members cs of None \<Rightarrow> None
                   | Some (kvs, rest') \<Rightarrow> Some (JObject kvs, rest')))
      else if c = CHR ''['' then
        (case skip_ws cs of
           [] \<Rightarrow> None
         | d # rest \<Rightarrow>
             if d = CHR '']'' then Some (JArray [], rest)
             else (case parse_elements cs of None \<Rightarrow> None
                   | Some (vs, rest') \<Rightarrow> Some (JArray vs, rest')))
      else if c = CHR 0x22 then
        (case parse_chars cs of None \<Rightarrow> None
         | Some (us, rest) \<Rightarrow> Some (JString us, rest))
      else if take 4 (c # cs) = ''true'' then Some (JBool True, drop 3 cs)
      else if take 5 (c # cs) = ''false'' then Some (JBool False, drop 4 cs)
      else if take 4 (c # cs) = ''null'' then Some (JNull, drop 3 cs)
      else parse_number (c # cs))"
| "parse_elements s =
     (case parse_value (skip_ws s) of
        None \<Rightarrow> None
      | Some (v, rest) \<Rightarrow>
          (case skip_ws rest of
             [] \<Rightarrow> None
           | d # rest' \<Rightarrow>
               if d = CHR '']'' then Some ([v], rest')
               else if d = CHR '','' \<and> length rest' < length s then
                 (case parse_elements rest' of None \<Rightarrow> None
                  | Some (vs, rest'') \<Rightarrow> Some (v # vs, rest''))
               else None))"
| "parse_members s =
     (case skip_ws s of
        [] \<Rightarrow> None
      | q # s1 \<Rightarrow>
          if q \<noteq> CHR 0x22 then None
          else
            (case parse_chars s1 of
               None \<Rightarrow> None
             | Some (k, s2) \<Rightarrow>
                 (case skip_ws s2 of
                    [] \<Rightarrow> None
                  | col # s3 \<Rightarrow>
                      if col \<noteq> CHR '':'' \<or> \<not> length s3 < length s then None
                      else
                        (case parse_value (skip_ws s3) of
                           None \<Rightarrow> None
                         | Some (v, rest) \<Rightarrow>
                             (case skip_ws rest of
                                [] \<Rightarrow> None
                              | d # rest' \<Rightarrow>
                                  if d = CHR ''}'' then Some ([(k, v)], rest')
                                  else if d = CHR '','' \<and> length rest' < length s then
                                    (case parse_members rest' of None \<Rightarrow> None
                                     | Some (kvs, rest'') \<Rightarrow> Some ((k, v) # kvs, rest''))
                                  else None)))))"
  by pat_completeness auto

termination
proof (relation "measure (\<lambda>x. case x of Inl s \<Rightarrow> 2 * length s
                                  | Inr (Inl s) \<Rightarrow> 2 * length s + 1
                                  | Inr (Inr s) \<Rightarrow> 2 * length s + 1)", goal_cases)
  case 1
  show ?case by simp
next
  case (2 c cs)
  then show ?case by simp
next
  case (3 c cs)
  then show ?case by simp
next
  case (4 s)
  show ?case using length_skip_ws [of s] by simp
next
  case 5
  then show ?case by simp
next
  case (6 s q s1 r k s2 col s3)
  then show ?case using length_skip_ws [of s3] by simp
next
  case 7
  then show ?case by simp
qed

text \<open>\<open>JSON.parse(text)\<close>: one value, with white space allowed around it and nothing else.\<close>

definition JSON_parse :: "string \<Rightarrow> json option" where
  "JSON_parse text =
     (case parse_value (skip_ws text) of
        None \<Rightarrow> None
      | Some (v, rest) \<Rightarrow> if skip_ws rest = [] then Some v else None)"


subsection \<open>The parser consumes what it reads\<close>

lemma cons_unit_Some:
  "cons_unit u r = Some (us, rest) \<Longrightarrow> \<exists>us'. r = Some (us', rest)"
  by (auto simp: cons_unit_def split: option.splits)

lemma parse_chars_shorter: "parse_chars s = Some (us, r) \<Longrightarrow> length r < length s"
proof (induction s arbitrary: us rule: parse_chars.induct)
  case 1
  then show ?case by simp
next
  case (2 c cs)
  show ?case
  proof (cases "c = CHR 0x22")
    case True
    with "2.prems" show ?thesis by simp
  next
    case nq: False
    show ?thesis
    proof (cases "c = CHR 0x5C")
      case True
      show ?thesis
      proof (cases cs)
        case Nil
        with "2.prems" nq True show ?thesis by simp
      next
        case (Cons e cs')
        show ?thesis
        proof (cases "e = CHR ''u''")
          case u: True
          with "2.prems" nq True Cons obtain w where w: "hex4 cs' = Some w"
            and "cons_unit w (parse_chars (drop 4 cs')) = Some (us, r)"
            by (auto split: option.splits)
          then obtain us' where "parse_chars (drop 4 cs') = Some (us', r)"
            using cons_unit_Some by blast
          from "2.IH"(1) [OF nq True Cons u w this] Cons show ?thesis by simp
        next
          case nu: False
          with "2.prems" nq True Cons obtain w where w: "unescape e = Some w"
            and "cons_unit w (parse_chars cs') = Some (us, r)"
            by (auto split: option.splits)
          then obtain us' where "parse_chars cs' = Some (us', r)"
            using cons_unit_Some by blast
          from "2.IH"(2) [OF nq True Cons nu w this] Cons show ?thesis by simp
        qed
      qed
    next
      case nb: False
      with "2.prems" nq have ctl: "\<not> (of_char c :: nat) < 32"
        and "cons_unit (of_char c) (parse_chars cs) = Some (us, r)"
        by (auto split: if_splits)
      then obtain us' where "parse_chars cs = Some (us', r)"
        using cons_unit_Some by blast
      from "2.IH"(3) [OF nq nb ctl this] show ?thesis by simp
    qed
  qed
qed

lemma parse_number_shorter:
  assumes "parse_number s = Some (v, r)"
  shows "length r < length s"
proof -
  define neg where "neg = (take 1 s = ''-'')"
  define s1 where "s1 = (if neg then drop 1 s else s)"
  define ip where "ip = (if take 1 s1 = ''0'' then ''0'' else takeWhile is_digit s1)"
  define s2 where "s2 = drop (length ip) s1"
  define has_frac where "has_frac = (take 1 s2 = ''.'')"
  define fp where "fp = (if has_frac then takeWhile is_digit (drop 1 s2) else [])"
  define s3 where "s3 = (if has_frac then drop (1 + length fp) s2 else s2)"
  define has_exp where "has_exp = (take 1 s3 = ''e'' \<or> take 1 s3 = ''E'')"
  define s4 where "s4 = (if has_exp then drop 1 s3 else s3)"
  define eneg where "eneg = (has_exp \<and> take 1 s4 = ''-'')"
  define s5 where "s5 = (if has_exp \<and> (take 1 s4 = ''-'' \<or> take 1 s4 = ''+'') then drop 1 s4 else s4)"
  define ep where "ep = (if has_exp then takeWhile is_digit s5 else [])"
  define s6 where "s6 = drop (length ep) s5"
  define e where "e = (if eneg then - int (digits_val ep) else int (digits_val ep))"
  have unf: "parse_number s =
      (if ip = [] \<or> (has_frac \<and> fp = []) \<or> (has_exp \<and> ep = []) then None
       else Some (JNumber neg (digits_val (ip @ fp)) (e - int (length fp)), s6))"
    unfolding parse_number_def neg_def s1_def ip_def s2_def has_frac_def fp_def s3_def
      has_exp_def s4_def eneg_def s5_def ep_def s6_def e_def Let_def ..
  from assms have ne: "ip \<noteq> []" and r: "r = s6"
    unfolding unf by (auto split: if_splits)
  have le: "length ip \<le> length s1"
    unfolding ip_def by (cases s1) (auto simp: length_takeWhile_le)
  from ne le have "length s2 < length s1" unfolding s2_def by (cases ip) auto
  moreover have "length s1 \<le> length s" unfolding s1_def by simp
  moreover have "length s3 \<le> length s2" unfolding s3_def by simp
  moreover have "length s4 \<le> length s3" unfolding s4_def by simp
  moreover have "length s5 \<le> length s4" unfolding s5_def by simp
  moreover have "length s6 \<le> length s5" unfolding s6_def by simp
  ultimately show ?thesis unfolding r by linarith
qed

lemma length_skip_ws_Cons: "skip_ws s = d # t \<Longrightarrow> length t < length s"
  using length_skip_ws [of s] by simp

lemma parse_shorter:
  "parse_value s = Some (v, r) \<Longrightarrow> length r < length s"
  "parse_elements s1 = Some (vs, r1) \<Longrightarrow> length r1 < length s1"
  "parse_members s2 = Some (kvs, r2) \<Longrightarrow> length r2 < length s2"
proof (induction s and s1 and s2 arbitrary: v r and vs r1 and kvs r2
    rule: parse_value_parse_elements_parse_members.induct)
  case 1
  then show ?case by simp
next
  case (2 c cs)
  show ?case
  proof (cases "c = CHR ''{''")
    case True
    show ?thesis
    proof (cases "skip_ws cs")
      case Nil
      with "2.prems" True show ?thesis by simp
    next
      case (Cons d rest)
      show ?thesis
      proof (cases "d = CHR ''}''")
        case True
        with "2.prems" \<open>c = CHR ''{''\<close> Cons length_skip_ws_Cons [OF Cons] show ?thesis by auto
      next
        case False
        with "2.prems" \<open>c = CHR ''{''\<close> Cons obtain kvs where "parse_members cs = Some (kvs, r)"
          by (auto split: option.splits)
        from "2.IH"(1) [OF \<open>c = CHR ''{''\<close> Cons False this] show ?thesis by simp
      qed
    qed
  next
    case nb: False
    show ?thesis
    proof (cases "c = CHR ''[''")
      case True
      show ?thesis
      proof (cases "skip_ws cs")
        case Nil
        with "2.prems" nb True show ?thesis by simp
      next
        case (Cons d rest)
        show ?thesis
        proof (cases "d = CHR '']''")
          case cl: True
          with "2.prems" nb True Cons length_skip_ws_Cons [OF Cons] show ?thesis by auto
        next
          case False
          with "2.prems" nb True Cons obtain vs where "parse_elements cs = Some (vs, r)"
            by (auto split: option.splits)
          from "2.IH"(2) [OF nb True Cons False this] show ?thesis by simp
        qed
      qed
    next
      case na: False
      show ?thesis
      proof (cases "c = CHR 0x22")
        case True
        with "2.prems" nb na obtain us where "parse_chars cs = Some (us, r)"
          by (auto split: option.splits)
        from parse_chars_shorter [OF this] show ?thesis by simp
      next
        case nq: False
        from "2.prems" nb na nq
        consider "r = drop 3 cs" "3 \<le> length cs" | "r = drop 4 cs" "4 \<le> length cs"
          | "parse_number (c # cs) = Some (v, r)"
          by (auto split: if_splits simp: take_Cons' dest!: arg_cong [where f = length])
        then show ?thesis
        proof cases
          case 1
          then show ?thesis by simp
        next
          case 2
          then show ?thesis by simp
        next
          case 3
          then show ?thesis by (rule parse_number_shorter)
        qed
      qed
    qed
  qed
next
  case (3 s)
  from "3.prems" obtain v rest where pv: "parse_value (skip_ws s) = Some (v, rest)"
    by (auto split: option.splits)
  from "3.IH"(1) [OF pv] length_skip_ws [of s] have l1: "length rest < length s" by simp
  from "3.prems" pv obtain d rest' where sk: "skip_ws rest = d # rest'"
    by (auto split: list.splits)
  from length_skip_ws_Cons [OF sk] l1 have l2: "length rest' < length s" by simp
  show ?case
  proof (cases "d = CHR '']''")
    case True
    with "3.prems" pv sk l2 show ?thesis by simp
  next
    case False
    with "3.prems" pv sk l2 obtain vs' where c: "d = CHR '',''"
      and pe: "parse_elements rest' = Some (vs', r1)"
      by (auto split: if_splits option.splits)
    from c l2 have g: "d = CHR '','' \<and> length rest' < length s" by simp
    from "3.IH"(2) [OF pv refl sk False g pe] l2 show ?thesis by simp
  qed
next
  case (4 s)
  from "4.prems" obtain s1 where sk: "skip_ws s = CHR 0x22 # s1"
    by (auto split: list.splits if_splits)
  from "4.prems" sk obtain k s2 where pc: "parse_chars s1 = Some (k, s2)"
    by (auto split: option.splits)
  from "4.prems" sk pc obtain s3 where sk2: "skip_ws s2 = CHR '':'' # s3" and g3: "length s3 < length s"
    by (auto split: list.splits if_splits)
  from "4.prems" sk pc sk2 g3 obtain v rest where pv: "parse_value (skip_ws s3) = Some (v, rest)"
    by (auto split: option.splits)
  have ng: "\<not> (CHR '':'' \<noteq> CHR '':'' \<or> \<not> length s3 < length s)" using g3 by simp
  from "4.IH"(1) [OF sk _ pc refl sk2 ng pv] length_skip_ws [of s3] g3
  have l1: "length rest < length s" by simp
  from "4.prems" sk pc sk2 g3 pv obtain d rest' where sk3: "skip_ws rest = d # rest'"
    by (auto split: list.splits)
  from length_skip_ws_Cons [OF sk3] l1 have l2: "length rest' < length s" by simp
  show ?case
  proof (cases "d = CHR ''}''")
    case True
    with "4.prems" sk pc sk2 g3 pv sk3 l2 show ?thesis by simp
  next
    case False
    with "4.prems" sk pc sk2 g3 pv sk3 l2 obtain kvs' where c: "d = CHR '',''"
      and pm: "parse_members rest' = Some (kvs', r2)"
      by (auto split: if_splits option.splits)
    from c l2 have g: "d = CHR '','' \<and> length rest' < length s" by simp
    from "4.IH"(2) [OF sk _ pc refl sk2 ng pv refl sk3 False g pm] l2 show ?thesis by simp
  qed
qed

text \<open>
  So the length tests in \<open>parse_elements\<close> and \<open>parse_members\<close> never fail: both
  functions satisfy their equations without the tests.
\<close>

lemma parse_elements_unguarded:
  "parse_elements s =
     (case parse_value (skip_ws s) of
        None \<Rightarrow> None
      | Some (v, rest) \<Rightarrow>
          (case skip_ws rest of
             [] \<Rightarrow> None
           | d # rest' \<Rightarrow>
               if d = CHR '']'' then Some ([v], rest')
               else if d = CHR '','' then
                 (case parse_elements rest' of None \<Rightarrow> None
                  | Some (vs, rest'') \<Rightarrow> Some (v # vs, rest''))
               else None))"
proof (cases "parse_value (skip_ws s)")
  case None
  then show ?thesis by simp
next
  case (Some p)
  obtain v rest where p: "p = (v, rest)" by (cases p)
  from parse_shorter(1) [of "skip_ws s" v rest] Some p length_skip_ws [of s]
  have l: "length rest < length s" by simp
  show ?thesis
  proof (cases "skip_ws rest")
    case Nil
    with Some p show ?thesis by simp
  next
    case (Cons d rest')
    from length_skip_ws_Cons [OF Cons] l have "length rest' < length s" by simp
    with Some p Cons show ?thesis by simp
  qed
qed

lemma parse_members_unguarded:
  "parse_members s =
     (case skip_ws s of
        [] \<Rightarrow> None
      | q # s1 \<Rightarrow>
          if q \<noteq> CHR 0x22 then None
          else
            (case parse_chars s1 of
               None \<Rightarrow> None
             | Some (k, s2) \<Rightarrow>
                 (case skip_ws s2 of
                    [] \<Rightarrow> None
                  | col # s3 \<Rightarrow>
                      if col \<noteq> CHR '':'' then None
                      else
                        (case parse_value (skip_ws s3) of
                           None \<Rightarrow> None
                         | Some (v, rest) \<Rightarrow>
                             (case skip_ws rest of
                                [] \<Rightarrow> None
                              | d # rest' \<Rightarrow>
                                  if d = CHR ''}'' then Some ([(k, v)], rest')
                                  else if d = CHR '','' then
                                    (case parse_members rest' of None \<Rightarrow> None
                                     | Some (kvs, rest'') \<Rightarrow> Some ((k, v) # kvs, rest''))
                                  else None)))))"
proof (cases "skip_ws s")
  case Nil
  then show ?thesis by simp
next
  case sk: (Cons q s1)
  show ?thesis
  proof (cases "parse_chars s1")
    case None
    with sk show ?thesis by simp
  next
    case (Some p)
    obtain k s2 where p: "p = (k, s2)" by (cases p)
    from parse_chars_shorter [of s1 k s2] Some p length_skip_ws_Cons [OF sk]
    have l2: "length s2 < length s" by simp
    show ?thesis
    proof (cases "skip_ws s2")
      case Nil
      with sk Some p show ?thesis by simp
    next
      case sk2: (Cons col s3)
      from length_skip_ws_Cons [OF sk2] l2 have l3: "length s3 < length s" by simp
      show ?thesis
      proof (cases "parse_value (skip_ws s3)")
        case None
        with sk Some p sk2 l3 show ?thesis by simp
      next
        case pv: (Some pr)
        obtain v rest where pr: "pr = (v, rest)" by (cases pr)
        from parse_shorter(1) [of "skip_ws s3" v rest] pv pr length_skip_ws [of s3] l3
        have l4: "length rest < length s" by simp
        show ?thesis
        proof (cases "skip_ws rest")
          case Nil
          with sk Some p sk2 l3 pv pr show ?thesis by simp
        next
          case sk3: (Cons d rest')
          from length_skip_ws_Cons [OF sk3] l4 have "length rest' < length s" by simp
          with sk Some p sk2 l3 pv pr sk3 show ?thesis by simp
        qed
      qed
    qed
  qed
qed

text \<open>
  What a JavaScript condition makes of a value: \<open>null\<close>, \<open>false\<close>, zero and the empty
  string are falsy, and so is \<open>undefined\<close> (written \<open>None\<close>), which reading an absent
  property gives. A number literal is zero as a double exactly when its magnitude is at
  most \<open>2^-1075\<close>, half of the smallest subnormal (round to nearest, ties to even).
\<close>

definition number_nonzero :: "nat \<Rightarrow> int \<Rightarrow> bool" where
  "number_nonzero m e =
     (m \<noteq> 0 \<and> (0 \<le> e \<or> 10 ^ nat (- e) < m * 2 ^ 1075))"

fun truthy :: "json option \<Rightarrow> bool" where
  "truthy None = False"
| "truthy (Some JNull) = False"
| "truthy (Some (JBool b)) = b"
| "truthy (Some (JNumber neg m e)) = number_nonzero m e"
| "truthy (Some (JString us)) = (us \<noteq> [])"
| "truthy (Some (JArray vs)) = True"
| "truthy (Some (JObject kvs)) = True"

definition js_key :: "string \<Rightarrow> js_string" where
  "js_key s = map of_char s"

text \<open>
  Reading a property that no prototype defines (\<open>name\<close>, \<open>html\<close>): on an object it is
  the member of that name, the last one where the text repeats a name; on any other
  value except \<open>null\<close> it is \<open>undefined\<close>. Reading a property of \<open>null\<close> raises
  \<open>TypeError\<close>, which callers handle before they call \<open>get_prop\<close>.
\<close>

fun get_prop :: "json \<Rightarrow> js_string \<Rightarrow> json option" where
  "get_prop (JObject kvs) k = map_of (rev kvs) k"
| "get_prop _ k = None"

section \<open>The fragment decoder \<open>parseJsonStream\<close>\<close>

text \<open>
  A chunk of a response stream carries a \<open>text\<close> field; the decoder skips a chunk whose
  \<open>text\<close> is not a string (\<open>None\<close>). A stream either ends or throws.
\<close>

type_synonym chunk = "string option"

datatype stream_end = Ended | Threw

type_synonym response_stream = "chunk list \<times> stream_end"

text \<open>The text a stream delivers: its string chunks, concatenated.\<close>

definition stream_text :: "chunk list \<Rightarrow> string" where
  "stream_text chunks = concat (map (\<lambda>chunk. case chunk of None \<Rightarrow> [] | Some t \<Rightarrow> t) chunks)"

text \<open>\<open>buffer.indexOf(ch, from)\<close>, with \<open>None\<close> for \<open>-1\<close>.\<close>

fun index_from :: "char \<Rightarrow> nat \<Rightarrow> string \<Rightarrow> nat option" where
  "index_from ch i [] = None"
| "index_from ch i (c # cs) = (if c = ch then Some i else index_from ch (Suc i) cs)"

definition indexOf :: "string \<Rightarrow> char \<Rightarrow> nat \<Rightarrow> nat option" where
  "indexOf buffer ch from = index_from ch from (drop from buffer)"

text \<open>\<open>s.substring(a, b)\<close> for \<open>a \<le> b\<close>; \<open>s.substring(a)\<close> is \<open>drop a s\<close>.\<close>

definition substring :: "string \<Rightarrow> nat \<Rightarrow> nat \<Rightarrow> string" where
  "substring s a b = take (b - a) (drop a s)"

text \<open>
  The inner \<open>for\<close> loop: from \<open>start\<close> on, count \<open>{\<close> up and \<open>}\<close> down, and stop at the
  first index after \<open>start\<close> where the count is zero. Quotes are not looked at.
\<close>

fun scan_braces :: "int \<Rightarrow> nat \<Rightarrow> nat \<Rightarrow> string \<Rightarrow> nat option" where
  "scan_braces braceCount start i [] = None"
| "scan_braces braceCount start i (c # cs) =
     (let braceCount' =
            (if c = CHR ''{'' then braceCount + 1
             else if c = CHR ''}'' then braceCount - 1
             else braceCount)
      in if braceCount' = 0 \<and> i > start then Some i
         else scan_braces braceCount' start (Suc i) cs)"

definition find_end :: "string \<Rightarrow> nat \<Rightarrow> nat option" where
  "find_end buffer start = scan_braces 0 start start (drop start buffer)"

lemma index_from_bounds:
  "index_from ch i s = Some k \<Longrightarrow> i \<le> k \<and> k < i + length s"
  by (induction s arbitrary: i) (fastforce split: if_splits)+

lemma indexOf_bounds:
  "indexOf buffer ch from = Some k \<Longrightarrow> from \<le> k \<and> k < length buffer"
  unfolding indexOf_def by (drule index_from_bounds) auto

lemma scan_braces_bounds:
  "scan_braces bc start i s = Some e \<Longrightarrow> i \<le> e \<and> e < i + length s"
  by (induction s arbitrary: bc i) (fastforce simp: Let_def split: if_splits)+

lemma find_end_bounds:
  "find_end buffer start = Some e \<Longrightarrow> start \<le> e \<and> e < length buffer"
  unfolding find_end_def by (drule scan_braces_bounds) auto

text \<open>
  The \<open>while (start !== -1)\<close> loop, run after each chunk is appended. It returns the
  values yielded and the buffer it leaves. A span that closes and parses is yielded and
  cut off the buffer together with all text before it; a span that closes and does not
  parse moves \<open>start\<close> to the next \<open>{\<close>; a span that does not close ends the loop.
\<close>

function drain :: "string \<Rightarrow> nat option \<Rightarrow> json list \<times> string" where
  "drain buffer None = ([], buffer)"
| "drain buffer (Some start) =
     (case find_end buffer start of
        None \<Rightarrow> ([], buffer)
      | Some end \<Rightarrow>
          (case JSON_parse (substring buffer start (end + 1)) of
             Some v \<Rightarrow>
               (let buffer' = drop (end + 1) buffer;
                    (vs, b) = drain buffer' (indexOf buffer' CHR ''{'' 0)
                in (v # vs, b))
           | None \<Rightarrow> drain buffer (indexOf buffer CHR ''{'' (start + 1))))"
  by pat_completeness auto
termination
proof (relation "measures [\<lambda>(buffer, start). length buffer,
                           \<lambda>(buffer, start). case start of None \<Rightarrow> 0
                                              | Some s \<Rightarrow> Suc (length buffer - s)]", goal_cases)
  case 1
  show ?case by simp
next
  case 2
  then show ?case
    by (auto dest!: find_end_bounds indexOf_bounds split: option.splits)
next
  case 3
  then show ?case
    by (auto dest!: find_end_bounds indexOf_bounds split: option.splits)
qed

text \<open>
  The \<open>for await\<close> loop over the chunks, from a given buffer: the values yielded, in
  order, and the buffer held when the chunks are used up. The generator drops that
  buffer when the stream ends. A stream that throws makes the generator throw after the
  values of the chunks before; those values are the same.
\<close>

fun parseJsonStream_from :: "string \<Rightarrow> chunk list \<Rightarrow> json list \<times> string" where
  "parseJsonStream_from buffer [] = ([], buffer)"
| "parseJsonStream_from buffer (chunk # rest) =
     (case chunk of
        None \<Rightarrow> parseJsonStream_from buffer rest
      | Some text \<Rightarrow>
          (let buffer1 = buffer @ text;
               (vs, buffer2) = drain buffer1 (indexOf buffer1 CHR ''{'' 0);
               (ws, b) = parseJsonStream_from buffer2 rest
           in (vs @ ws, b)))"

definition parseJsonStream :: "chunk list \<Rightarrow> json list" where
  "parseJsonStream responseStream = fst (parseJsonStream_from [] responseStream)"

section \<open>The response extractor \<open>extractJson\<close>\<close>

definition startsWith :: "string \<Rightarrow> string \<Rightarrow> bool" where
  "startsWith s p = (take (length p) s = p)"

definition endsWith :: "string \<Rightarrow> string \<Rightarrow> bool" where
  "endsWith s p = (length p \<le> length s \<and> drop (length s - length p) s = p)"

text \<open>
  The lazy group \<open>([\s\S]*?)\<close> followed by a literal: the shortest text after which the
  literal stands.
\<close>

fun lazy_until :: "string \<Rightarrow> string \<Rightarrow> string option" where
  "lazy_until lit [] = (if lit = [] then Some [] else None)"
| "lazy_until lit (c # cs) =
     (if startsWith (c # cs) lit then Some []
      else map_option ((#) c) (lazy_until lit cs))"

text \<open>
  The greedy group \<open>([\s\S]*)\<close> followed by a character: the text before the last
  occurrence of the character.
\<close>

fun greedy_until :: "char \<Rightarrow> string \<Rightarrow> string option" where
  "greedy_until ch [] = None"
| "greedy_until ch (c # cs) =
     (case greedy_until ch cs of
        Some t \<Rightarrow> Some (c # t)
      | None \<Rightarrow> if c = ch then Some [] else None)"

text \<open>
  \<open>text.match(/```json([\s\S]*?)```/)\<close> and \<open>text.match(/\[([\s\S]*)\]/)\<close>: the leftmost
  match, as the pair of the whole match (\<open>match[0]\<close>) and the group (\<open>match[1]\<close>);
  \<open>None\<close> where \<open>match\<close> returns \<open>null\<close>.
\<close>

fun match_fence :: "string \<Rightarrow> (string \<times> string) option" where
  "match_fence [] = None"
| "match_fence (c # cs) =
     (if startsWith (c # cs) ''```json'' then
        (case lazy_until ''```'' (drop 7 (c # cs)) of
           Some inner \<Rightarrow> Some (''```json'' @ inner @ ''```'', inner)
         | None \<Rightarrow> match_fence cs)
      else match_fence cs)"

fun match_array :: "string \<Rightarrow> (string \<times> string) option" where
  "match_array [] = None"
| "match_array (c # cs) =
     (if c = CHR ''['' then
        (case greedy_until CHR '']'' cs of
           Some inner \<Rightarrow> Some (CHR ''['' # inner @ '']'', inner)
         | None \<Rightarrow> match_array cs)
      else match_array cs)"

text \<open>
  \<open>extractJson\<close> returns a JavaScript value; its failure value is \<open>null\<close>, the same
  \<open>null\<close> that parsing the text \<open>null\<close> gives. \<open>match[1] || match[0]\<close> takes the group
  unless it is the empty string.
\<close>

definition extractJson :: "string \<Rightarrow> json" where
  "extractJson text =
     (case JSON_parse text of
        Some v \<Rightarrow> v
      | None \<Rightarrow>
          (case (case match_fence text of Some m \<Rightarrow> Some m | None \<Rightarrow> match_array text) of
             Some (m0, m1) \<Rightarrow>
               (case JSON_parse (if m1 \<noteq> [] then m1 else m0) of
                  Some v \<Rightarrow> v
                | None \<Rightarrow> JNull)
           | None \<Rightarrow> JNull))"


section \<open>Sessions and artifacts\<close>

text \<open>
  The interfaces \<open>Artifact\<close> and \<open>Session\<close> of \<open>types.ts\<close>. The interface declares
  \<open>styleName\<close> a string; the program writes \<open>generatedStyles[i]\<close> into it, which is
  whatever value the planning response held at that index, or \<open>undefined\<close> (\<open>None\<close>) past
  the end. So the field holds a JSON value or nothing; a string is a \<open>JString\<close>.
\<close>

datatype status = Streaming | Complete | Error

record artifact =
  artifact_id :: string
  styleName :: "json option"
  html :: string
  status :: status

record session =
  session_id :: string
  prompt :: string
  userAnswers :: "(string \<times> string) list"
  timestamp :: nat
  artifacts :: "artifact list"

text \<open>
  The part of the component state the operations below read and write: \<open>sessions\<close>,
  \<open>currentSessionIndex\<close> (initially \<open>-1\<close>) and \<open>focusedArtifactIndex\<close> (initially \<open>null\<close>).
\<close>

record app_state =
  sessions :: "session list"
  currentSessionIndex :: int
  focusedArtifactIndex :: "nat option"

definition initial_state :: app_state where
  "initial_state = \<lparr>sessions = [], currentSessionIndex = - 1, focusedArtifactIndex = None\<rparr>"

text \<open>\<open>xs.map((x, i) => f(i, x))\<close>.\<close>

definition map_index :: "(nat \<Rightarrow> 'a \<Rightarrow> 'b) \<Rightarrow> 'a list \<Rightarrow> 'b list" where
  "map_index f xs = map (\<lambda>(i, x). f i x) (zip [0..<length xs] xs)"

text \<open>
  The update every generation task applies through \<open>setSessions\<close>: in each session whose
  id is \<open>sessionId\<close>, each artifact whose id is \<open>artifactId\<close> is replaced by its image
  under \<open>transform\<close>; everything else is kept.
\<close>

definition updateArtifact ::
  "string \<Rightarrow> string \<Rightarrow> (artifact \<Rightarrow> artifact) \<Rightarrow> session list \<Rightarrow> session list" where
  "updateArtifact sessionId artifactId transform prev =
     map (\<lambda>sess.
            if session_id sess = sessionId then
              sess\<lparr>artifacts :=
                     map (\<lambda>art. if artifact_id art = artifactId then transform art else art)
                         (artifacts sess)\<rparr>
            else sess) prev"

subsection \<open>Creating a session and planning its styles\<close>

text \<open>The three placeholders, with ids \<open>`${sessionId}_${i}`\<close> for \<open>i = 0, 1, 2\<close>.\<close>

definition placeholderArtifacts :: "string \<Rightarrow> artifact list" where
  "placeholderArtifacts sessionId =
     map (\<lambda>i. \<lparr>artifact_id = sessionId @ ''_'' @ [char_of (48 + i)],
               styleName = Some (JString (js_key ''Designing...'')),
               html = [],
               status = Streaming\<rparr>) [0..<3]"

definition newSession ::
  "string \<Rightarrow> string \<Rightarrow> (string \<times> string) list \<Rightarrow> nat \<Rightarrow> session" where
  "newSession sessionId basePrompt answers baseTime =
     \<lparr>session_id = sessionId, prompt = basePrompt, userAnswers = answers,
      timestamp = baseTime, artifacts = placeholderArtifacts sessionId\<rparr>"

text \<open>
  The planning step reads what \<open>extractJson\<close> returned, which can be any JSON value:
  the declaration \<open>string[]\<close> is not checked when the program runs. Three statements
  follow: \<open>|| []\<close>, the test \<open>generatedStyles.length < 3\<close>, and \<open>.slice(0, 3)\<close>.

  The test compares a value with the number 3, which converts the value to a number.
  \<open>js_number\<close> is what a conversion gives: not a number, an infinity with its sign, or
  sign, decimal digits and decimal exponent as in \<open>JNumber\<close>. \<open>lt3\<close> is the comparison
  with 3 of the double nearest to the number: the doubles next to 3 are \<open>3 - 2^-51\<close> and
  3 itself, and the tie between them goes to 3.
\<close>

datatype js_number = NaN | Infinity bool | Finite bool nat int

fun lt3 :: "js_number \<Rightarrow> bool" where
  "lt3 NaN = False"
| "lt3 (Infinity neg) = neg"
| "lt3 (Finite neg m e) =
     (neg \<or> int m * 2 ^ 52 * 10 ^ nat e < (3 * 2 ^ 52 - 1) * 10 ^ nat (- e))"

text \<open>
  \<open>StringToNumber\<close>: white space and line terminators are stripped from both ends; the
  empty text is 0; otherwise the text is a signed decimal literal (\<open>Infinity\<close>, or digits
  with an optional fraction and exponent, where the digits before or after the point may
  be missing but not both), or an unsigned binary, octal or hexadecimal literal (\<open>0b\<close>,
  \<open>0o\<close>, \<open>0x\<close>); anything else is not a number.
\<close>

definition is_str_ws :: "nat \<Rightarrow> bool" where
  "is_str_ws u =
     ((9 \<le> u \<and> u \<le> 13) \<or> u = 32 \<or> u = 160 \<or> u = 0x1680 \<or> (0x2000 \<le> u \<and> u \<le> 0x200A)
      \<or> u = 0x2028 \<or> u = 0x2029 \<or> u = 0x202F \<or> u = 0x205F \<or> u = 0x3000 \<or> u = 0xFEFF)"

definition unit_digit :: "nat \<Rightarrow> nat \<Rightarrow> nat option" where
  "unit_digit radix u =
     (let d = (if 48 \<le> u \<and> u \<le> 57 then Some (u - 48)
               else if 65 \<le> u \<and> u \<le> 70 then Some (u - 55)
               else if 97 \<le> u \<and> u \<le> 102 then Some (u - 87)
               else None)
      in case d of None \<Rightarrow> None | Some n \<Rightarrow> if n < radix then Some n else None)"

definition is_decimal_digit :: "nat \<Rightarrow> bool" where
  "is_decimal_digit u = (48 \<le> u \<and> u \<le> 57)"

definition digits_in :: "nat \<Rightarrow> js_string \<Rightarrow> nat" where
  "digits_in radix ds = foldl (\<lambda>n u. radix * n + the (unit_digit radix u)) 0 ds"

definition StrDecimalLiteral :: "js_string \<Rightarrow> js_number" where
  "StrDecimalLiteral t =
     (let neg = (take 1 t = [45]);
          t1 = (if take 1 t = [45] \<or> take 1 t = [43] then drop 1 t else t);
          ip = takeWhile is_decimal_digit t1;
          t2 = drop (length ip) t1;
          has_frac = (take 1 t2 = [46]);
          fp = (if has_frac then takeWhile is_decimal_digit (drop 1 t2) else []);
          t3 = (if has_frac then drop (1 + length fp) t2 else t2);
          has_exp = (take 1 t3 = [101] \<or> take 1 t3 = [69]);
          t4 = (if has_exp then drop 1 t3 else t3);
          eneg = (has_exp \<and> take 1 t4 = [45]);
          t5 = (if has_exp \<and> (take 1 t4 = [45] \<or> take 1 t4 = [43]) then drop 1 t4 else t4);
          ep = (if has_exp then takeWhile is_decimal_digit t5 else []);
          t6 = drop (length ep) t5;
          e = (if eneg then - int (digits_in 10 ep) else int (digits_in 10 ep))
      in if t1 = js_key ''Infinity'' then Infinity neg
         else if (ip = [] \<and> fp = []) \<or> (has_exp \<and> ep = []) \<or> t6 \<noteq> [] then NaN
         else Finite neg (digits_in 10 (ip @ fp)) (e - int (length fp)))"

definition NonDecimalIntegerLiteral :: "js_string \<Rightarrow> js_number" where
  "NonDecimalIntegerLiteral t =
     (case t of
        z # r # ds \<Rightarrow>
          (let radix = (if r = 120 \<or> r = 88 then 16
                        else if r = 111 \<or> r = 79 then 8
                        else if r = 98 \<or> r = 66 then 2
                        else 0)
           in if z = 48 \<and> ds \<noteq> [] \<and> list_all (\<lambda>u. unit_digit radix u \<noteq> None) ds
              then Finite False (digits_in radix ds) 0
              else NaN)
      | _ \<Rightarrow> NaN)"

definition StringToNumber :: "js_string \<Rightarrow> js_number" where
  "StringToNumber us =
     (let t = rev (dropWhile is_str_ws (rev (dropWhile is_str_ws us)))
      in if t = [] then Finite False 0 0
         else if StrDecimalLiteral t \<noteq> NaN then StrDecimalLiteral t
         else NonDecimalIntegerLiteral t)"

text \<open>
  The number a JSON value converts to. An array converts through its \<open>join\<close>: the empty
  array gives the empty text, an array of two or more elements a text with a comma,
  which is not a number, and an array of one element the text of that element, which is
  empty for \<open>null\<close>, \<open>true\<close> or \<open>false\<close> for a boolean, and for a number a text that reads
  back as the same number. An object converts to \<open>[object Object]\<close>, not a number; where
  its members shadow \<open>toString\<close> the conversion throws instead, and either way the
  comparison does not come out true. \<open>undefined\<close> (\<open>None\<close>) is not a number.
\<close>

fun ToNumber :: "json \<Rightarrow> js_number" where
  "ToNumber JNull = Finite False 0 0"
| "ToNumber (JBool b) = Finite False (if b then 1 else 0) 0"
| "ToNumber (JNumber neg m e) = Finite neg m e"
| "ToNumber (JString us) = StringToNumber us"
| "ToNumber (JArray []) = Finite False 0 0"
| "ToNumber (JArray [JBool b]) = NaN"
| "ToNumber (JArray [v]) = ToNumber v"
| "ToNumber (JArray (v # w # vs)) = NaN"
| "ToNumber (JObject kvs) = NaN"

fun less_than_3 :: "json option \<Rightarrow> bool" where
  "less_than_3 None = False"
| "less_than_3 (Some v) = lt3 (ToNumber v)"

text \<open>
  \<open>x.length\<close> for a value that is not \<open>null\<close>: the number of elements of an array, the
  number of code units of a string, the member of that name of an object, and
  \<open>undefined\<close> for a number or a boolean.
\<close>

fun length_prop :: "json \<Rightarrow> json option" where
  "length_prop (JArray vs) = Some (JNumber False (length vs) 0)"
| "length_prop (JString us) = Some (JNumber False (length us) 0)"
| "length_prop (JObject kvs) = get_prop (JObject kvs) (js_key ''length'')"
| "length_prop v = None"

text \<open>
  \<open>x.slice(0, 3)\<close>: the first three elements of an array, the first three code units of
  a string. No other JSON value has a \<open>slice\<close> that can be called, an object with a member
  of that name included, and the call raises \<open>TypeError\<close>. \<open>styles\<close> is what the program
  then holds, an array or a string, and \<open>style_at\<close> is \<open>generatedStyles[i]\<close>.
\<close>

datatype js_error = TypeError

datatype styles = StyleArray "json list" | StyleString js_string

fun slice_0_3 :: "json \<Rightarrow> js_error + styles" where
  "slice_0_3 (JArray vs) = Inr (StyleArray (take 3 vs))"
| "slice_0_3 (JString us) = Inr (StyleString (take 3 us))"
| "slice_0_3 v = Inl TypeError"

definition nth_opt :: "'a list \<Rightarrow> nat \<Rightarrow> 'a option" where
  "nth_opt xs i = (if i < length xs then Some (xs ! i) else None)"

fun style_at :: "styles \<Rightarrow> nat \<Rightarrow> json option" where
  "style_at (StyleArray vs) i = nth_opt vs i"
| "style_at (StyleString us) i = (if i < length us then Some (JString [us ! i]) else None)"

definition fallback_styles :: "json list" where
  "fallback_styles =
     [JString (js_key ''Modern Clean''), JString (js_key ''Futuristic Dark''),
      JString (js_key ''Spatial Depth'')]"

text \<open>\<open>styleResponse.text || '[]'\<close>, the text handed to \<open>extractJson\<close>.\<close>

definition styleResponse_text :: "string option \<Rightarrow> string" where
  "styleResponse_text text = (case text of None \<Rightarrow> ''[]'' | Some t \<Rightarrow> if t = [] then ''[]'' else t)"

text \<open>
  The labels of the planning step, from what \<open>extractJson\<close> returned, statement by
  statement; \<open>Inl TypeError\<close> when the step throws.
\<close>

definition generatedStyles :: "json \<Rightarrow> js_error + styles" where
  "generatedStyles extracted =
     (let g0 = (if truthy (Some extracted) then extracted else JArray []);
          g1 = (if less_than_3 (length_prop g0) then JArray fallback_styles else g0)
      in slice_0_3 g1)"

definition applyStyles :: "string \<Rightarrow> styles \<Rightarrow> session list \<Rightarrow> session list" where
  "applyStyles sessionId styles prev =
     map (\<lambda>s. if session_id s \<noteq> sessionId then s
              else s\<lparr>artifacts :=
                       map_index (\<lambda>i art. art\<lparr>styleName := style_at styles i\<rparr>) (artifacts s)\<rparr>)
         prev"

subsection \<open>One generation task\<close>

text \<open>
  \<open>trim\<close>, \<open>trimStart\<close> and \<open>trimEnd\<close> remove JavaScript white space and line
  terminators; below 256 these are the code units 9 to 13, 32 and 160.
\<close>

definition is_js_space :: "char \<Rightarrow> bool" where
  "is_js_space c =
     (let n = (of_char c :: nat) in (9 \<le> n \<and> n \<le> 13) \<or> n = 32 \<or> n = 160)"

definition trimStart :: "string \<Rightarrow> string" where
  "trimStart s = dropWhile is_js_space s"

definition trimEnd :: "string \<Rightarrow> string" where
  "trimEnd s = rev (dropWhile is_js_space (rev s))"

definition trim :: "string \<Rightarrow> string" where
  "trim s = trimEnd (trimStart s)"

text \<open>The "basic cleanup" of the accumulated text, statement by statement.\<close>

definition cleanup :: "string \<Rightarrow> string" where
  "cleanup accumulatedHtml =
     (let f0 = trim accumulatedHtml;
          f1 = (if startsWith f0 ''```html'' then trimStart (drop 7 f0) else f0);
          f2 = (if startsWith f1 ''```'' then trimStart (drop 3 f1) else f1);
          f3 = (if endsWith f2 ''```'' then trimEnd (take (length f2 - 3) f2) else f2)
      in f3)"

definition failure_placeholder :: string where
  \<open>failure_placeholder = ''<div style="padding:20px; color:red">Generation Failed</div>''\<close>

text \<open>
  The three writes of \<open>generateArtifact\<close>: after each string chunk, on completion of the
  stream, and in the \<open>catch\<close> block.
\<close>

definition streamUpdate :: "string \<Rightarrow> string \<Rightarrow> string \<Rightarrow> session list \<Rightarrow> session list" where
  "streamUpdate sessionId artifactId accumulatedHtml =
     updateArtifact sessionId artifactId (\<lambda>art. art\<lparr>html := accumulatedHtml\<rparr>)"

definition finalize :: "string \<Rightarrow> string \<Rightarrow> string \<Rightarrow> session list \<Rightarrow> session list" where
  "finalize sessionId artifactId accumulatedHtml =
     (let finalHtml = cleanup accumulatedHtml
      in updateArtifact sessionId artifactId
           (\<lambda>art. art\<lparr>html := finalHtml,
                       status := (if finalHtml \<noteq> [] then Complete else Error)\<rparr>))"

definition fail :: "string \<Rightarrow> string \<Rightarrow> session list \<Rightarrow> session list" where
  "fail sessionId artifactId =
     updateArtifact sessionId artifactId
       (\<lambda>art. art\<lparr>html := failure_placeholder, status := Error\<rparr>)"

subsection \<open>Applying a variation\<close>

definition applyVariation :: "string \<Rightarrow> app_state \<Rightarrow> app_state" where
  "applyVariation h st =
     (case focusedArtifactIndex st of
        None \<Rightarrow> st
      | Some f \<Rightarrow>
          st\<lparr>sessions :=
               map_index (\<lambda>i sess.
                   if int i = currentSessionIndex st then
                     sess\<lparr>artifacts :=
                            map_index (\<lambda>j art. if j = f then art\<lparr>html := h, status := Complete\<rparr>
                                               else art) (artifacts sess)\<rparr>
                   else sess) (sessions st)\<rparr>)"

subsection \<open>Operations as events\<close>

text \<open>
  Every write to the state is one atomic update; concurrent tasks interleave their
  updates. An event is one such update together with the values its closure holds:
  \<open>CreateSession\<close> carries the id \<open>generateId()\<close> returned, the prompt, the answers,
  \<open>Date.now()\<close> and the \<open>sessions.length\<close> that \<open>startGeneration\<close> sees; \<open>SetFocused\<close>
  and \<open>SetCurrent\<close> stand for the navigation handlers.
\<close>

datatype event =
    CreateSession string string "(string \<times> string) list" nat nat
  | ApplyStyles string styles
  | StreamUpdate string string string
  | Finalize string string string
  | Fail string string
  | ApplyVariation string
  | SetFocused "nat option"
  | SetCurrent int

fun step :: "app_state \<Rightarrow> event \<Rightarrow> app_state" where
  "step st (CreateSession sessionId basePrompt answers baseTime seen) =
     st\<lparr>sessions := sessions st @ [newSession sessionId basePrompt answers baseTime],
        currentSessionIndex := int seen,
        focusedArtifactIndex := None\<rparr>"
| "step st (ApplyStyles sessionId styles) =
     st\<lparr>sessions := applyStyles sessionId styles (sessions st)\<rparr>"
| "step st (StreamUpdate sessionId artifactId accumulatedHtml) =
     st\<lparr>sessions := streamUpdate sessionId artifactId accumulatedHtml (sessions st)\<rparr>"
| "step st (Finalize sessionId artifactId accumulatedHtml) =
     st\<lparr>sessions := finalize sessionId artifactId accumulatedHtml (sessions st)\<rparr>"
| "step st (Fail sessionId artifactId) =
     st\<lparr>sessions := fail sessionId artifactId (sessions st)\<rparr>"
| "step st (ApplyVariation h) = applyVariation h st"
| "step st (SetFocused f) = st\<lparr>focusedArtifactIndex := f\<rparr>"
| "step st (SetCurrent i) = st\<lparr>currentSessionIndex := i\<rparr>"

definition run :: "app_state \<Rightarrow> event list \<Rightarrow> app_state" where
  "run st es = foldl step st es"

text \<open>
  The updates of one \<open>generateArtifact\<close> task, in order: one \<open>StreamUpdate\<close> with the text
  accumulated so far for every string chunk, then \<open>Finalize\<close> when the stream ends, or
  \<open>Fail\<close> when the call or the stream throws. The updater of a \<open>StreamUpdate\<close> reads the
  variable \<open>accumulatedHtml\<close> when the update is applied, by which time it may hold a
  longer text than at the call; the model takes the text at the call. \<open>Finalize\<close> and
  \<open>Fail\<close> overwrite the content, so what a finished task leaves does not depend on it.
\<close>

fun stream_updates :: "string \<Rightarrow> string \<Rightarrow> string \<Rightarrow> chunk list \<Rightarrow> event list" where
  "stream_updates sessionId artifactId accumulatedHtml [] = []"
| "stream_updates sessionId artifactId accumulatedHtml (chunk # rest) =
     (case chunk of
        None \<Rightarrow> stream_updates sessionId artifactId accumulatedHtml rest
      | Some text \<Rightarrow>
          StreamUpdate sessionId artifactId (accumulatedHtml @ text)
            # stream_updates sessionId artifactId (accumulatedHtml @ text) rest)"

fun generateArtifact :: "string \<Rightarrow> string \<Rightarrow> response_stream \<Rightarrow> event list" where
  "generateArtifact sessionId artifactId (chunks, Ended) =
     stream_updates sessionId artifactId [] chunks
       @ [Finalize sessionId artifactId (stream_text chunks)]"
| "generateArtifact sessionId artifactId (chunks, Threw) =
     stream_updates sessionId artifactId [] chunks @ [Fail sessionId artifactId]"

text \<open>
  What \<open>startGeneration\<close> does after it has created the session and received the
  planning response: it applies the labels and then starts the tasks. When the planning
  step throws, the \<open>catch\<close> of \<open>startGeneration\<close> logs the error, and neither the labels
  are applied nor a task is started.
\<close>

definition planning :: "string \<Rightarrow> string option \<Rightarrow> event list" where
  "planning sessionId text =
     (case generatedStyles (extractJson (styleResponse_text text)) of
        Inl err \<Rightarrow> []
      | Inr styles \<Rightarrow> [ApplyStyles sessionId styles])"

section \<open>The variation flow\<close>

text \<open>
  The loop of \<open>handleGenerateVariations\<close> over the decoded values, from the list so far.
  Reading \<open>variation.name\<close> of \<open>null\<close> raises \<open>TypeError\<close>; the handler's \<open>catch\<close> then
  ends the loop with the list as it is. The list starts empty, and it is the same
  whether the stream ends or throws after its chunks.
\<close>

fun collect_variations :: "json list \<Rightarrow> json list \<Rightarrow> json list" where
  "collect_variations prev [] = prev"
| "collect_variations prev (variation # rest) =
     (if variation = JNull then prev
      else if truthy (get_prop variation (js_key ''name''))
              \<and> truthy (get_prop variation (js_key ''html''))
      then collect_variations (prev @ [variation]) rest
      else collect_variations prev rest)"

definition handleGenerateVariations :: "response_stream \<Rightarrow> json list" where
  "handleGenerateVariations responseStream =
     collect_variations [] (parseJsonStream (fst responseStream))"


section \<open>Planning: the style labels (claim C2)\<close>

text \<open>
  The labels that a fresh session's three artifacts carry after \<open>startGeneration\<close> has
  created the session and gone through the planning step with a given response text.
\<close>

definition labels_applied :: "string option \<Rightarrow> json option list" where
  "labels_applied text =
     map styleName
       (artifacts (last (sessions
          (run initial_state (CreateSession ''s'' ''p'' [] 0 0 # planning ''s'' text)))))"

lemma map_index_nth:
  "i < length xs \<Longrightarrow> map_index f xs ! i = f i (xs ! i)"
  by (simp add: map_index_def)

lemma length_map_index [simp]: "length (map_index f xs) = length xs"
  by (simp add: map_index_def)

text \<open>
  The test \<open>length < 3\<close> on the length of an array or a string is the comparison of
  natural numbers. The planning step then falls into the cases below.
\<close>

lemma lt3_nat: "lt3 (Finite False n 0) = (n < 3)"
  by (simp, arith)

lemma length_fallback_styles: "length fallback_styles = 3"
  by (simp add: fallback_styles_def)

lemma generatedStyles_falsy:
  "\<not> truthy (Some v) \<Longrightarrow> generatedStyles v = Inr (StyleArray fallback_styles)"
  by (simp add: generatedStyles_def lt3_nat length_fallback_styles)

lemma generatedStyles_array:
  "generatedStyles (JArray vs)
     = Inr (StyleArray (if length vs < 3 then fallback_styles else take 3 vs))"
  by (simp add: generatedStyles_def lt3_nat length_fallback_styles)

lemma generatedStyles_string:
  "generatedStyles (JString us)
     = Inr (if length us < 3 then StyleArray fallback_styles else StyleString (take 3 us))"
  by (cases "us = []") (simp_all add: generatedStyles_def lt3_nat length_fallback_styles)

lemma generatedStyles_number:
  "truthy (Some (JNumber neg m e)) \<Longrightarrow> generatedStyles (JNumber neg m e) = Inl TypeError"
  by (simp add: generatedStyles_def)

lemma generatedStyles_true: "generatedStyles (JBool True) = Inl TypeError"
  by (simp add: generatedStyles_def)

lemma generatedStyles_object:
  "generatedStyles (JObject kvs)
     = (if less_than_3 (get_prop (JObject kvs) (js_key ''length''))
        then Inr (StyleArray fallback_styles) else Inl TypeError)"
  by (simp add: generatedStyles_def length_fallback_styles del: less_than_3.simps get_prop.simps)

lemma generatedStyles_three:
  assumes "generatedStyles v = Inr sty"
  shows "(\<exists>a b c. sty = StyleArray [a, b, c]) \<or> (\<exists>a b c. sty = StyleString [a, b, c])"
proof -
  have three: "\<exists>a b c. xs = [a, b, c]" if "length xs = 3" for xs :: "'a list"
    using that by (metis (no_types, opaque_lifting) length_0_conv length_Suc_conv numeral_3_eq_3)
  have fb: "\<exists>a b c. fallback_styles = [a, b, c]" by (simp add: fallback_styles_def)
  show ?thesis
  proof (cases "truthy (Some v)")
    case False
    with assms fb show ?thesis by (auto simp: generatedStyles_falsy)
  next
    case True
    show ?thesis
    proof (cases v)
      case JNull
      with True show ?thesis by simp
    next
      case (JBool b)
      with True assms show ?thesis by (simp add: generatedStyles_true)
    next
      case (JNumber neg m e)
      with True assms show ?thesis by (simp add: generatedStyles_number)
    next
      case (JString us)
      show ?thesis
      proof (cases "length us < 3")
        case True
        with assms JString fb show ?thesis by (auto simp: generatedStyles_string)
      next
        case False
        then have "length (take 3 us) = 3" by simp
        from three [OF this] assms JString False show ?thesis
          by (auto simp: generatedStyles_string)
      qed
    next
      case (JArray vs)
      show ?thesis
      proof (cases "length vs < 3")
        case True
        with assms JArray fb show ?thesis by (auto simp: generatedStyles_array)
      next
        case False
        then have "length (take 3 vs) = 3" by simp
        from three [OF this] assms JArray False show ?thesis
          by (auto simp: generatedStyles_array)
      qed
    next
      case (JObject kvs)
      with assms fb show ?thesis
        by (auto simp: generatedStyles_object simp del: less_than_3.simps get_prop.simps
            split: if_splits)
    qed
  qed
qed

lemma labels_of_new_session:
  "map styleName (artifacts (last (sessions (step st (CreateSession sid p a t seen)))))
     = replicate 3 (Some (JString (js_key ''Designing...'')))"
  by (simp add: newSession_def placeholderArtifacts_def upt_rec numeral_3_eq_3)

lemma labels_after_applyStyles:
  "map styleName (artifacts (last (sessions
       (step (step st (CreateSession sid p a t seen)) (ApplyStyles sid sty)))))
     = [style_at sty 0, style_at sty 1, style_at sty 2]"
  by (simp add: applyStyles_def newSession_def placeholderArtifacts_def map_index_def upt_rec
      numeral_2_eq_2)

text \<open>
  C2, as the spec states it, fails: when planning returns the single label \<open>A\<close>, the
  label is not kept and padded. The program replaces the whole list by the fallback
  list, so the first artifact is labelled \<open>Modern Clean\<close>, not \<open>A\<close>.
\<close>

theorem C2_style_padding_counterexample:
  \<open>extractJson (styleResponse_text (Some ''["A"]'')) = JArray [JString (js_key ''A'')]
   \<and> generatedStyles (JArray [JString (js_key ''A'')])
       = Inr (StyleArray [JString (js_key ''Modern Clean''), JString (js_key ''Futuristic Dark''),
                          JString (js_key ''Spatial Depth'')])
   \<and> labels_applied (Some ''["A"]'')
       = [Some (JString (js_key ''Modern Clean'')), Some (JString (js_key ''Futuristic Dark'')),
          Some (JString (js_key ''Spatial Depth''))]
   \<and> hd (labels_applied (Some ''["A"]'')) \<noteq> Some (JString (js_key ''A''))\<close>
  by code_simp

text \<open>
  C2, amended: whenever the planning step does not throw, it ends with exactly three
  labels. When the extractor gives \<open>null\<close> or another falsy value, an array of fewer than
  three elements or a string of fewer than three code units, the labels are the fixed
  fallback list and nothing returned is kept; an array of three or more elements gives
  its first three elements, a string of three or more code units its first three code
  units, one label each. A number other than zero and \<open>true\<close> make the step throw
  \<open>TypeError\<close>; an object gives the fallback list when its member \<open>length\<close> compares
  less than 3 and makes the step throw otherwise. The placeholders of a new session are
  labelled \<open>Designing...\<close>. When the step gives labels, they are applied to the three
  artifacts of the session in order; when it throws, no label is applied and the
  placeholders keep \<open>Designing...\<close>.
\<close>

theorem C2_styles_replaced_or_truncated:
  "(\<forall>sty. generatedStyles v = Inr sty \<longrightarrow>
        (\<exists>a b c. sty = StyleArray [a, b, c]) \<or> (\<exists>a b c. sty = StyleString [a, b, c]))
   \<and> (\<not> truthy (Some v) \<longrightarrow> generatedStyles v = Inr (StyleArray fallback_styles))
   \<and> (\<forall>vs. v = JArray vs \<longrightarrow>
         generatedStyles v = Inr (StyleArray (if length vs < 3 then fallback_styles else take 3 vs)))
   \<and> (\<forall>us. v = JString us \<longrightarrow>
         generatedStyles v
           = Inr (if length us < 3 then StyleArray fallback_styles else StyleString (take 3 us)))
   \<and> (\<forall>neg m e. v = JNumber neg m e \<and> truthy (Some v) \<longrightarrow> generatedStyles v = Inl TypeError)
   \<and> (v = JBool True \<longrightarrow> generatedStyles v = Inl TypeError)
   \<and> (\<forall>kvs. v = JObject kvs \<longrightarrow>
         generatedStyles v
           = (if less_than_3 (get_prop v (js_key ''length''))
              then Inr (StyleArray fallback_styles) else Inl TypeError))
   \<and> map styleName (artifacts (last (sessions (step st (CreateSession sid p a t seen)))))
       = replicate 3 (Some (JString (js_key ''Designing...'')))
   \<and> (\<forall>sty. generatedStyles (extractJson (styleResponse_text reply)) = Inr sty \<longrightarrow>
         planning sid reply = [ApplyStyles sid sty]
         \<and> map styleName (artifacts (last (sessions
              (run (step st (CreateSession sid p a t seen)) (planning sid reply)))))
             = [style_at sty 0, style_at sty 1, style_at sty 2])
   \<and> (generatedStyles (extractJson (styleResponse_text reply)) = Inl TypeError \<longrightarrow>
         planning sid reply = []
         \<and> map styleName (artifacts (last (sessions
              (run (step st (CreateSession sid p a t seen)) (planning sid reply)))))
             = replicate 3 (Some (JString (js_key ''Designing...''))))"
proof (intro conjI allI impI)
  fix sty assume "generatedStyles v = Inr sty"
  then show "(\<exists>a b c. sty = StyleArray [a, b, c]) \<or> (\<exists>a b c. sty = StyleString [a, b, c])"
    by (rule generatedStyles_three)
next
  assume "\<not> truthy (Some v)"
  then show "generatedStyles v = Inr (StyleArray fallback_styles)" by (rule generatedStyles_falsy)
next
  fix vs assume "v = JArray vs"
  then show "generatedStyles v
               = Inr (StyleArray (if length vs < 3 then fallback_styles else take 3 vs))"
    by (simp only: generatedStyles_array)
next
  fix us assume "v = JString us"
  then show "generatedStyles v
           = Inr (if length us < 3 then StyleArray fallback_styles else StyleString (take 3 us))"
    by (simp only: generatedStyles_string)
next
  fix neg m e assume "v = JNumber neg m e \<and> truthy (Some v)"
  then show "generatedStyles v = Inl TypeError" using generatedStyles_number by blast
next
  assume "v = JBool True"
  then show "generatedStyles v = Inl TypeError" by (simp only: generatedStyles_true)
next
  fix kvs assume "v = JObject kvs"
  then show "generatedStyles v
           = (if less_than_3 (get_prop v (js_key ''length''))
              then Inr (StyleArray fallback_styles) else Inl TypeError)"
    by (simp only: generatedStyles_object)
next
  show "map styleName (artifacts (last (sessions (step st (CreateSession sid p a t seen)))))
       = replicate 3 (Some (JString (js_key ''Designing...'')))"
    by (rule labels_of_new_session)
next
  fix sty assume g: "generatedStyles (extractJson (styleResponse_text reply)) = Inr sty"
  then show "planning sid reply = [ApplyStyles sid sty]" by (simp add: planning_def)
  then show "map styleName (artifacts (last (sessions
              (run (step st (CreateSession sid p a t seen)) (planning sid reply)))))
             = [style_at sty 0, style_at sty 1, style_at sty 2]"
    using labels_after_applyStyles [of st sid p a t seen sty] by (simp add: run_def del: step.simps)
next
  assume g: "generatedStyles (extractJson (styleResponse_text reply)) = Inl TypeError"
  then show "planning sid reply = []" by (simp add: planning_def)
  then show "map styleName (artifacts (last (sessions
              (run (step st (CreateSession sid p a t seen)) (planning sid reply)))))
             = replicate 3 (Some (JString (js_key ''Designing...'')))"
    using labels_of_new_session [of st sid p a t seen] by (simp add: run_def del: step.simps)
qed


theorem C2_styles_replaced_or_truncated_witness:
  \<open>generatedStyles (JArray [JString (js_key ''A''), JString (js_key ''B'')])
       = Inr (StyleArray fallback_styles)
   \<and> generatedStyles (JArray [JString (js_key ''A''), JString (js_key ''B''), JString (js_key ''C''),
                             JString (js_key ''D'')])
       = Inr (StyleArray [JString (js_key ''A''), JString (js_key ''B''), JString (js_key ''C'')])
   \<and> generatedStyles JNull = Inr (StyleArray fallback_styles)
   \<and> generatedStyles (JString (js_key ''abcd'')) = Inr (StyleString (js_key ''abc''))
   \<and> generatedStyles (JNumber False 7 0) = Inl TypeError
   \<and> generatedStyles (JBool True) = Inl TypeError
   \<and> generatedStyles (JObject [(js_key ''length'', JNumber False 1 0)])
       = Inr (StyleArray fallback_styles)
   \<and> generatedStyles (JObject [(js_key ''a'', JNumber False 1 0)]) = Inl TypeError
   \<and> map styleName (artifacts (last (sessions
        (run (step initial_state (CreateSession ''s'' ''p'' [] 0 0))
             (planning ''s'' (Some ''["x","y","z","w"]''))))))
       = [Some (JString (js_key ''x'')), Some (JString (js_key ''y'')), Some (JString (js_key ''z''))]
   \<and> map styleName (artifacts (last (sessions
        (run (step initial_state (CreateSession ''s'' ''p'' [] 0 0)) (planning ''s'' (Some ''7''))))))
       = replicate 3 (Some (JString (js_key ''Designing...'')))\<close>
proof -
  note inst = C2_styles_replaced_or_truncated
  from inst [where v = \<open>JArray [JString (js_key ''A''), JString (js_key ''B'')]\<close>]
  have 1: \<open>generatedStyles (JArray [JString (js_key ''A''), JString (js_key ''B'')])
             = Inr (StyleArray fallback_styles)\<close>
    by simp
  from inst [where v = \<open>JArray [JString (js_key ''A''), JString (js_key ''B''),
                               JString (js_key ''C''), JString (js_key ''D'')]\<close>]
  have 2: \<open>generatedStyles (JArray [JString (js_key ''A''), JString (js_key ''B''),
                                    JString (js_key ''C''), JString (js_key ''D'')])
       = Inr (StyleArray [JString (js_key ''A''), JString (js_key ''B''), JString (js_key ''C'')])\<close>
    by simp
  from inst [where v = JNull]
  have 3: \<open>generatedStyles JNull = Inr (StyleArray fallback_styles)\<close>
    by simp
  from inst [where v = \<open>JString (js_key ''abcd'')\<close>]
  have 4: \<open>generatedStyles (JString (js_key ''abcd'')) = Inr (StyleString (js_key ''abc''))\<close>
    by (simp add: js_key_def)
  have t7: \<open>truthy (Some (JNumber False 7 0))\<close> by (simp add: number_nonzero_def)
  from inst [where v = \<open>JNumber False 7 0\<close>] t7
  have 5: \<open>generatedStyles (JNumber False 7 0) = Inl TypeError\<close>
    by blast
  from inst [where v = \<open>JBool True\<close>]
  have 6: \<open>generatedStyles (JBool True) = Inl TypeError\<close>
    by blast
  have l1: \<open>less_than_3 (get_prop (JObject [(js_key ''length'', JNumber False 1 0)]) (js_key ''length''))\<close>
    by simp
  from inst [where v = \<open>JObject [(js_key ''length'', JNumber False 1 0)]\<close>] l1
  have 7: \<open>generatedStyles (JObject [(js_key ''length'', JNumber False 1 0)])
             = Inr (StyleArray fallback_styles)\<close>
    by simp
  have l2: \<open>\<not> less_than_3 (get_prop (JObject [(js_key ''a'', JNumber False 1 0)]) (js_key ''length''))\<close>
    by (simp add: js_key_def)
  from inst [where v = \<open>JObject [(js_key ''a'', JNumber False 1 0)]\<close>] l2
  have 8: \<open>generatedStyles (JObject [(js_key ''a'', JNumber False 1 0)]) = Inl TypeError\<close>
    by simp
  have e1: \<open>extractJson (styleResponse_text (Some ''["x","y","z","w"]''))
              = JArray [JString (js_key ''x''), JString (js_key ''y''), JString (js_key ''z''),
                        JString (js_key ''w'')]\<close>
    by code_simp
  from inst [where v = \<open>JArray [JString (js_key ''x''), JString (js_key ''y''), JString (js_key ''z''),
                        JString (js_key ''w'')]\<close>]
  have g1: \<open>generatedStyles (extractJson (styleResponse_text (Some ''["x","y","z","w"]'')))
              = Inr (StyleArray [JString (js_key ''x''), JString (js_key ''y''), JString (js_key ''z'')])\<close>
    unfolding e1 by simp
  from inst [where reply = \<open>Some ''["x","y","z","w"]''\<close> and st = initial_state and sid = \<open>''s''\<close>
               and p = \<open>''p''\<close> and a = \<open>[]\<close> and t = 0 and seen = 0] g1
  have 9: \<open>map styleName (artifacts (last (sessions
        (run (step initial_state (CreateSession ''s'' ''p'' [] 0 0))
             (planning ''s'' (Some ''["x","y","z","w"]''))))))
       = [style_at (StyleArray [JString (js_key ''x''), JString (js_key ''y''), JString (js_key ''z'')]) 0,
          style_at (StyleArray [JString (js_key ''x''), JString (js_key ''y''), JString (js_key ''z'')]) 1,
          style_at (StyleArray [JString (js_key ''x''), JString (js_key ''y''), JString (js_key ''z'')]) 2]\<close>
    by blast
  have e2: \<open>extractJson (styleResponse_text (Some ''7'')) = JNumber False 7 0\<close>
    by code_simp
  from inst [where reply = \<open>Some ''7''\<close> and st = initial_state and sid = \<open>''s''\<close>
               and p = \<open>''p''\<close> and a = \<open>[]\<close> and t = 0 and seen = 0] 5
  have 10: \<open>map styleName (artifacts (last (sessions
        (run (step initial_state (CreateSession ''s'' ''p'' [] 0 0)) (planning ''s'' (Some ''7''))))))
       = replicate 3 (Some (JString (js_key ''Designing...'')))\<close>
    unfolding e2 by blast
  from 9 have m9: \<open>map styleName (artifacts (last (sessions
        (run (step initial_state (CreateSession ''s'' ''p'' [] 0 0))
             (planning ''s'' (Some ''["x","y","z","w"]''))))))
       = [Some (JString (js_key ''x'')), Some (JString (js_key ''y'')), Some (JString (js_key ''z''))]\<close>
    by (simp add: nth_opt_def)
  from 1 2 3 4 5 6 7 8 m9 10 show ?thesis by blast
qed


section \<open>The extractor's attempts (claims C4 and C5)\<close>

lemma match_fence_shape:
  "match_fence s = Some (m0, m1) \<Longrightarrow> m0 = ''```json'' @ m1 @ ''```''"
  by (induction s) (auto split: if_splits option.splits)

lemma JSON_parse_Nil: "JSON_parse [] = None"
  by (simp add: JSON_parse_def skip_ws_def)

lemma parse_number_backtick: "parse_number (CHR 0x60 # s) = None"
  unfolding parse_number_def Let_def by (simp add: is_digit_def)

lemma JSON_parse_backtick: "JSON_parse (CHR 0x60 # s) = None"
  by (simp add: JSON_parse_def skip_ws_def is_json_ws_def parse_number_backtick)

text \<open>
  C4: on the text \<open>x [1,2] y\<close> direct parsing fails and there is no fence; the bracket
  pattern matches \<open>[1,2]\<close>, which is valid JSON, but its group is the text between the
  brackets, \<open>1,2\<close>, and \<open>match[1] || match[0]\<close> hands that group to \<open>JSON.parse\<close>. The
  extractor returns \<open>null\<close> where the claim says it returns the array.
\<close>

theorem C4_bracket_span_inner_parsed:
  \<open>JSON_parse ''x [1,2] y'' = None
   \<and> match_fence ''x [1,2] y'' = None
   \<and> match_array ''x [1,2] y'' = Some (''[1,2]'', ''1,2'')
   \<and> JSON_parse ''[1,2]'' = Some (JArray [JNumber False 1 0, JNumber False 2 0])
   \<and> JSON_parse ''1,2'' = None
   \<and> extractJson ''x [1,2] y'' = JNull\<close>
  by code_simp

text \<open>
  C5, as the spec states it, fails: here direct parsing fails, the fence is found and its
  inner text is not JSON, and the bracket span \<open>[1]\<close> is valid JSON; the extractor returns
  \<open>null\<close>, because a fence that matches keeps the bracket pattern from being tried.
\<close>

theorem C5_fence_blocks_array_counterexample:
  \<open>JSON_parse ''```json x``` [1]'' = None
   \<and> match_fence ''```json x``` [1]'' = Some (''```json x```'', '' x'')
   \<and> JSON_parse '' x'' = None
   \<and> match_array ''```json x``` [1]'' = Some (''[1]'', ''1'')
   \<and> JSON_parse ''[1]'' = Some (JArray [JNumber False 1 0])
   \<and> extractJson ''```json x``` [1]'' = JNull\<close>
  by code_simp

text \<open>
  C5, amended: the extractor always returns a value. It returns the parse of the whole
  text when that succeeds. Otherwise, when a \<open>```json\<close> fence is found, it returns the
  parse of the fence's inner text, or \<open>null\<close> when that fails, and the bracket span is
  not tried. When direct parsing fails and the text has neither a fence nor a bracket
  span, it returns \<open>null\<close>.
\<close>

theorem C5_extractJson_attempts:
  "(\<forall>v. JSON_parse text = Some v \<longrightarrow> extractJson text = v)
   \<and> (\<forall>m0 m1. JSON_parse text = None \<and> match_fence text = Some (m0, m1) \<longrightarrow>
         extractJson text = (case JSON_parse m1 of Some v \<Rightarrow> v | None \<Rightarrow> JNull))
   \<and> (JSON_parse text = None \<and> match_fence text = None \<and> match_array text = None \<longrightarrow>
         extractJson text = JNull)"
proof (intro conjI allI impI)
  fix v assume "JSON_parse text = Some v"
  then show "extractJson text = v" by (simp add: extractJson_def)
next
  fix m0 m1 assume a: "JSON_parse text = None \<and> match_fence text = Some (m0, m1)"
  then have m0: "m0 = ''```json'' @ m1 @ ''```''" using match_fence_shape by blast
  show "extractJson text = (case JSON_parse m1 of Some v \<Rightarrow> v | None \<Rightarrow> JNull)"
  proof (cases "m1 = []")
    case True
    then show ?thesis using a m0 by (simp add: extractJson_def JSON_parse_Nil JSON_parse_backtick)
  next
    case False
    then show ?thesis using a by (simp add: extractJson_def)
  qed
next
  assume "JSON_parse text = None \<and> match_fence text = None \<and> match_array text = None"
  then show "extractJson text = JNull" by (simp add: extractJson_def)
qed

theorem C5_extractJson_attempts_witness:
  \<open>extractJson ''{"a":1}'' = JObject [(js_key ''a'', JNumber False 1 0)]
   \<and> extractJson ''here: ```json [1,2] ```'' = JArray [JNumber False 1 0, JNumber False 2 0]
   \<and> extractJson ''no json here'' = JNull\<close>
proof -
  have 1: \<open>JSON_parse ''{"a":1}'' = Some (JObject [(js_key ''a'', JNumber False 1 0)])\<close>
    by code_simp
  have 2: \<open>JSON_parse ''here: ```json [1,2] ```'' = None
           \<and> match_fence ''here: ```json [1,2] ```'' = Some (''```json [1,2] ```'', '' [1,2] '')\<close>
    by code_simp
  have 3: \<open>JSON_parse '' [1,2] '' = Some (JArray [JNumber False 1 0, JNumber False 2 0])\<close>
    by code_simp
  have 4: \<open>JSON_parse ''no json here'' = None \<and> match_fence ''no json here'' = None
           \<and> match_array ''no json here'' = None\<close>
    by code_simp
  from 1 C5_extractJson_attempts [of \<open>''{"a":1}''\<close>]
  have a: \<open>extractJson ''{"a":1}'' = JObject [(js_key ''a'', JNumber False 1 0)]\<close>
    by blast
  from 2 C5_extractJson_attempts [of \<open>''here: ```json [1,2] ```''\<close>]
  have \<open>extractJson ''here: ```json [1,2] ```''
          = (case JSON_parse '' [1,2] '' of Some v \<Rightarrow> v | None \<Rightarrow> JNull)\<close>
    by blast
  with 3 have b: \<open>extractJson ''here: ```json [1,2] ```''
                   = JArray [JNumber False 1 0, JNumber False 2 0]\<close>
    by simp
  from 4 C5_extractJson_attempts [of \<open>''no json here''\<close>]
  have c: \<open>extractJson ''no json here'' = JNull\<close>
    by blast
  from a b c show ?thesis by blast
qed


section \<open>Properties of the fragment decoder (claims C1, C6 and C7)\<close>

subsection \<open>Index arithmetic of the scanner\<close>


lemma index_from_shift:
  "index_from ch (i + k) s = map_option (\<lambda>n. n + k) (index_from ch i s)"
  by (induction s arbitrary: i) (auto simp flip: add_Suc)

lemma indexOf_append_shift:
  "indexOf (pre @ rest) ch (length pre + k) = map_option (\<lambda>n. n + length pre) (indexOf rest ch k)"
  using index_from_shift [of ch k "length pre" "drop k rest"]
  by (simp add: indexOf_def add.commute)

lemma indexOf_skip:
  "ch \<notin> set j \<Longrightarrow> indexOf (j @ rest) ch 0 = map_option (\<lambda>n. n + length j) (indexOf rest ch 0)"
proof (induction j)
  case Nil
  then show ?case by (simp add: indexOf_def option.map_ident)
next
  case (Cons c j)
  then have "c \<noteq> ch" by auto
  with Cons show ?case
    using index_from_shift [of ch 0 1 "j @ rest"]
    by (simp add: indexOf_def option.map_comp comp_def)
qed

lemma indexOf_hd: "indexOf (ch # s) ch 0 = Some 0"
  by (simp add: indexOf_def)

lemma indexOf_None_iff: "indexOf s ch 0 = None \<longleftrightarrow> ch \<notin> set s"
proof -
  have "index_from ch i s = None \<longleftrightarrow> ch \<notin> set s" for i
    by (induction s arbitrary: i) auto
  then show ?thesis by (simp add: indexOf_def)
qed

lemma indexOf_Some_nth: "indexOf s ch k = Some n \<Longrightarrow> n < length s \<and> s ! n = ch"
proof -
  have "index_from ch i t = Some n \<Longrightarrow> i \<le> n \<and> n - i < length t \<and> t ! (n - i) = ch" for i t
  proof (induction t arbitrary: i)
    case Nil
    then show ?case by simp
  next
    case (Cons c t)
    show ?case
    proof (cases "c = ch")
      case True
      with Cons.prems show ?thesis by simp
    next
      case False
      with Cons.prems have "index_from ch (Suc i) t = Some n" by simp
      from Cons.IH [OF this] show ?thesis by (auto simp: Suc_diff_le nth_Cons')
    qed
  qed
  from this [of k "drop k s"] show "indexOf s ch k = Some n \<Longrightarrow> n < length s \<and> s ! n = ch"
    by (auto simp: indexOf_def)
qed

lemma scan_braces_shift:
  "scan_braces bc (start + k) (i + k) s = map_option (\<lambda>n. n + k) (scan_braces bc start i s)"
  by (induction s arbitrary: bc i) (auto simp: Let_def simp flip: add_Suc)

lemma find_end_append_shift:
  "find_end (pre @ rest) (length pre + s) = map_option (\<lambda>n. n + length pre) (find_end rest s)"
  using scan_braces_shift [of 0 s "length pre" s "drop s rest"]
  by (simp add: find_end_def add.commute)

lemma scan_braces_extend:
  "scan_braces bc start i s = Some e \<Longrightarrow> scan_braces bc start i (s @ t) = Some e"
  by (induction s arbitrary: bc i) (auto simp: Let_def split: if_splits)

lemma find_end_extend:
  "find_end s 0 = Some e \<Longrightarrow> find_end (s @ t) 0 = Some e"
  by (simp add: find_end_def scan_braces_extend)

lemma scan_braces_take:
  "scan_braces bc start i s = Some e \<Longrightarrow> scan_braces bc start i (take (Suc e - i) s) = Some e"
proof (induction s arbitrary: bc i)
  case Nil
  then show ?case by simp
next
  case (Cons c s)
  define bc' where "bc' = (if c = CHR ''{'' then bc + 1 else if c = CHR ''}'' then bc - 1 else bc)"
  have unf: "scan_braces bc start i (c # t) =
               (if bc' = 0 \<and> i > start then Some i else scan_braces bc' start (Suc i) t)" for t
    by (simp add: bc'_def Let_def)
  show ?case
  proof (cases "bc' = 0 \<and> i > start")
    case True
    with Cons.prems have "e = i" by (simp add: unf del: scan_braces.simps)
    then have "take (Suc e - i) (c # s) = [c]" by simp
    with True \<open>e = i\<close> show ?thesis by (simp add: unf del: scan_braces.simps)
  next
    case False
    with Cons.prems have rec: "scan_braces bc' start (Suc i) s = Some e"
      by (simp add: unf del: scan_braces.simps)
    from scan_braces_bounds [OF rec] have "Suc i \<le> e" by simp
    then have "take (Suc e - i) (c # s) = c # take (Suc e - Suc i) s"
      by (simp add: take_Cons' Suc_diff_le)
    with Cons.IH [OF rec] False show ?thesis by (auto simp add: unf simp del: scan_braces.simps)
  qed
qed

subsection \<open>Spans the scanner closes\<close>

text \<open>
  A span is closed when it starts with \<open>{\<close> and the brace count of the scanner first
  returns to zero at its last character. \<open>pending\<close> says that the scanner finds
  nothing to close in a buffer: it has no \<open>{\<close>, or its first \<open>{\<close> is not matched.

  A stream text is described as a sequence of segments: objects that close and parse
  (\<open>Good\<close>), spans that close, do not parse and hold no second \<open>{\<close> (\<open>Bad\<close>), and text
  without any \<open>{\<close> (\<open>Junk\<close>). \<open>trail acc segs\<close> is what stays in the buffer: the segments
  after the last \<open>Good\<close> one.
\<close>

definition closed_span :: "string \<Rightarrow> bool" where
  "closed_span s = (s \<noteq> [] \<and> hd s = CHR ''{'' \<and> find_end s 0 = Some (length s - 1))"

definition pending :: "string \<Rightarrow> bool" where
  "pending p = (case indexOf p CHR ''{'' 0 of None \<Rightarrow> True | Some s \<Rightarrow> find_end p s = None)"

datatype segment = Good string json | Bad string | Junk string

fun seg_text :: "segment \<Rightarrow> string" where
  "seg_text (Good s v) = s"
| "seg_text (Bad s) = s"
| "seg_text (Junk s) = s"

fun seg_ok :: "segment \<Rightarrow> bool" where
  "seg_ok (Good s v) = (closed_span s \<and> JSON_parse s = Some v)"
| "seg_ok (Bad s) = (closed_span s \<and> JSON_parse s = None \<and> CHR ''{'' \<notin> set (tl s))"
| "seg_ok (Junk s) = (s \<noteq> [] \<and> CHR ''{'' \<notin> set s)"

fun seg_vals :: "segment \<Rightarrow> json list" where
  "seg_vals (Good s v) = [v]"
| "seg_vals (Bad s) = []"
| "seg_vals (Junk s) = []"

fun trail :: "segment list \<Rightarrow> segment list \<Rightarrow> segment list" where
  "trail acc [] = acc"
| "trail acc (Good s v # segs) = trail [] segs"
| "trail acc (Bad s # segs) = trail (acc @ [Bad s]) segs"
| "trail acc (Junk s # segs) = trail (acc @ [Junk s]) segs"

definition texts :: "segment list \<Rightarrow> string" where
  "texts segs = concat (map seg_text segs)"

definition vals :: "segment list \<Rightarrow> json list" where
  "vals segs = concat (map seg_vals segs)"

lemma texts_simps [simp]:
  "texts [] = []" "texts (s # segs) = seg_text s @ texts segs"
  "texts (xs @ ys) = texts xs @ texts ys"
  by (simp_all add: texts_def)

lemma vals_simps [simp]:
  "vals [] = []" "vals (s # segs) = seg_vals s @ vals segs"
  "vals (xs @ ys) = vals xs @ vals ys"
  by (simp_all add: vals_def)

lemma closed_span_Cons: "closed_span s \<Longrightarrow> \<exists>t. s = CHR ''{'' # t"
  by (cases s) (auto simp: closed_span_def)

lemma drain_closed_span_step:
  assumes cs: "closed_span s"
  shows "find_end (pre @ s @ rest) (length pre) = Some (length pre + length s - 1)"
    and "substring (pre @ s @ rest) (length pre) (length pre + length s - 1 + 1) = s"
    and "drop (length pre + length s - 1 + 1) (pre @ s @ rest) = rest"
proof -
  from cs have ne: "s \<noteq> []" and fe: "find_end s 0 = Some (length s - 1)"
    by (auto simp: closed_span_def)
  from fe have "find_end (s @ rest) 0 = Some (length s - 1)" by (rule find_end_extend)
  with find_end_append_shift [of pre "s @ rest" 0] ne
  show "find_end (pre @ s @ rest) (length pre) = Some (length pre + length s - 1)"
    by (cases s) auto
  from ne have l: "length pre + length s - 1 + 1 = length pre + length s" by (cases s) auto
  show "substring (pre @ s @ rest) (length pre) (length pre + length s - 1 + 1) = s"
    unfolding l by (simp add: substring_def)
  show "drop (length pre + length s - 1 + 1) (pre @ s @ rest) = rest"
    unfolding l by simp
qed

lemma drain_segments:
  "\<forall>s \<in> set segs. seg_ok s \<Longrightarrow> pending p \<Longrightarrow>
   drain (texts acc @ texts segs @ p)
         (map_option (\<lambda>n. n + length (texts acc)) (indexOf (texts segs @ p) CHR ''{'' 0))
     = (vals segs, texts (trail acc segs) @ p)"
proof (induction segs arbitrary: acc)
  case Nil
  show ?case
  proof (cases "indexOf p CHR ''{'' 0")
    case None
    then show ?thesis by simp
  next
    case (Some k)
    with Nil.prems have "find_end p k = None" by (simp add: pending_def)
    with find_end_append_shift [of "texts acc" p k]
    have "find_end (texts acc @ p) (k + length (texts acc)) = None" by (simp add: add.commute)
    with Some show ?thesis by simp
  qed
next
  case (Cons s segs)
  let ?pre = "texts acc" and ?rest = "texts segs @ p"
  from Cons.prems have oks: "\<forall>s \<in> set segs. seg_ok s" and ok: "seg_ok s" by auto
  note IH = Cons.IH [OF oks Cons.prems(2)]
  show ?case
  proof (cases s)
    case (Good t v)
    with ok have cs: "closed_span t" and pv: "JSON_parse t = Some v" by auto
    from cs obtain t' where t: "t = CHR ''{'' # t'" using closed_span_Cons by blast
    have start: "indexOf (texts (s # segs) @ p) CHR ''{'' 0 = Some 0"
      using Good t by (simp add: indexOf_hd)
    have buf: "texts acc @ texts (s # segs) @ p = ?pre @ t @ ?rest"
      using Good by simp
    have "drain (?pre @ t @ ?rest) (Some (length ?pre))
            = (v # fst (drain ?rest (indexOf ?rest CHR ''{'' 0)),
               snd (drain ?rest (indexOf ?rest CHR ''{'' 0)))"
      using drain_closed_span_step [OF cs, of ?pre ?rest] pv
      by (simp add: case_prod_beta Let_def)
    moreover have "drain ?rest (indexOf ?rest CHR ''{'' 0) = (vals segs, texts (trail [] segs) @ p)"
      using IH [of "[]"] by (simp add: option.map_ident)
    ultimately show ?thesis using Good start buf by simp
  next
    case (Bad t)
    with ok have cs: "closed_span t" and pv: "JSON_parse t = None"
      and nb: "CHR ''{'' \<notin> set (tl t)" by auto
    from cs obtain t' where t: "t = CHR ''{'' # t'" using closed_span_Cons by blast
    with nb have nb': "CHR ''{'' \<notin> set t'" by simp
    have start: "indexOf (texts (s # segs) @ p) CHR ''{'' 0 = Some 0"
      using Bad t by (simp add: indexOf_hd)
    have buf: "texts acc @ texts (s # segs) @ p = ?pre @ t @ ?rest"
      using Bad by simp
    have nxt: "indexOf (?pre @ t @ ?rest) CHR ''{'' (length ?pre + 1)
                 = map_option (\<lambda>n. n + length (texts (acc @ [Bad t]))) (indexOf ?rest CHR ''{'' 0)"
    proof -
      have "indexOf ((?pre @ [CHR ''{'']) @ t' @ ?rest) CHR ''{'' (length (?pre @ [CHR ''{'']) + 0)
              = map_option (\<lambda>n. n + length (?pre @ [CHR ''{''])) (indexOf (t' @ ?rest) CHR ''{'' 0)"
        by (rule indexOf_append_shift)
      also have "indexOf (t' @ ?rest) CHR ''{'' 0
                   = map_option (\<lambda>n. n + length t') (indexOf ?rest CHR ''{'' 0)"
        using nb' by (rule indexOf_skip)
      finally show ?thesis
        using t by (simp add: option.map_comp comp_def ac_simps)
    qed
    have "drain (?pre @ t @ ?rest) (Some (length ?pre))
            = drain (?pre @ t @ ?rest) (indexOf (?pre @ t @ ?rest) CHR ''{'' (length ?pre + 1))"
      using drain_closed_span_step [OF cs, of ?pre ?rest] pv by simp
    also have "\<dots> = drain (texts (acc @ [Bad t]) @ ?rest)
                       (map_option (\<lambda>n. n + length (texts (acc @ [Bad t]))) (indexOf ?rest CHR ''{'' 0))"
      using nxt by simp
    also have "\<dots> = (vals segs, texts (trail (acc @ [Bad t]) segs) @ p)"
      by (rule IH)
    finally show ?thesis using Bad start buf by simp
  next
    case (Junk t)
    with ok have nb: "CHR ''{'' \<notin> set t" by auto
    have "indexOf (texts (s # segs) @ p) CHR ''{'' 0
            = map_option (\<lambda>n. n + length t) (indexOf ?rest CHR ''{'' 0)"
      using Junk indexOf_skip [OF nb, of ?rest] by simp
    then have "drain (texts acc @ texts (s # segs) @ p)
         (map_option (\<lambda>n. n + length (texts acc)) (indexOf (texts (s # segs) @ p) CHR ''{'' 0))
       = drain (texts (acc @ [Junk t]) @ ?rest)
           (map_option (\<lambda>n. n + length (texts (acc @ [Junk t]))) (indexOf ?rest CHR ''{'' 0))"
      using Junk by (simp add: option.map_comp comp_def ac_simps)
    also have "\<dots> = (vals segs, texts (trail (acc @ [Junk t]) segs) @ p)"
      by (rule IH)
    finally show ?thesis using Junk by simp
  qed
qed

subsection \<open>Decoding a stream of segments, however it is split\<close>

text \<open>
  \<open>inert q\<close>: no prefix of \<open>q\<close> makes the scanner close a span, as for a proper prefix
  of a closed span. \<open>tip p sb q\<close>: the buffer's last part \<open>p\<close> is a proper prefix of the
  next segment, or, when no segment is left, a prefix of the trailing text \<open>q\<close>.
\<close>

definition inert :: "string \<Rightarrow> bool" where
  "inert q = (\<forall>q'. prefix q' q \<longrightarrow> pending q')"

definition tip :: "string \<Rightarrow> segment list \<Rightarrow> string \<Rightarrow> bool" where
  "tip p sb q = ((sb \<noteq> [] \<and> strict_prefix p (seg_text (hd sb))) \<or> (sb = [] \<and> prefix p q))"

lemma pending_no_brace: "CHR ''{'' \<notin> set p \<Longrightarrow> pending p"
  using indexOf_None_iff [of p "CHR ''{''"] by (simp add: pending_def)

lemma pending_strict_prefix_closed:
  assumes "closed_span s" and "strict_prefix p s"
  shows "pending p"
proof (cases p)
  case Nil
  then show ?thesis by (simp add: pending_def indexOf_def)
next
  case (Cons c p')
  from assms(2) obtain r where s: "s = p @ r" and "r \<noteq> []"
    by (auto simp: strict_prefix_def prefix_def)
  with assms(1) Cons have c: "c = CHR ''{''" by (simp add: closed_span_def)
  have "find_end p 0 = None"
  proof (cases "find_end p 0")
    case None
    then show ?thesis .
  next
    case (Some e)
    from find_end_bounds [OF Some] have "e < length p" by simp
    moreover from find_end_extend [OF Some, of r] s assms(1)
    have "e = length s - 1" by (simp add: closed_span_def)
    ultimately show ?thesis using s \<open>r \<noteq> []\<close> by (cases r) auto
  qed
  with Cons c show ?thesis by (simp add: pending_def indexOf_hd)
qed

lemma inert_Nil: "inert []"
  by (simp add: inert_def pending_def indexOf_def)

lemma inert_strict_prefix_closed:
  "closed_span s \<Longrightarrow> strict_prefix q s \<Longrightarrow> inert q"
  unfolding inert_def
  using pending_strict_prefix_closed prefix_order.le_less_trans by blast

lemma seg_ok_nonempty: "seg_ok s \<Longrightarrow> seg_text s \<noteq> []"
  by (cases s) (auto simp: closed_span_def)

lemma tip_pending:
  assumes "\<forall>s \<in> set sb. seg_ok s" and "inert q" and "tip p sb q"
  shows "pending p"
proof (cases "sb = []")
  case True
  with assms show ?thesis by (simp add: tip_def inert_def)
next
  case False
  with assms(3) have sp: "strict_prefix p (seg_text (hd sb))" by (simp add: tip_def)
  from False assms(1) have ok: "seg_ok (hd sb)" by simp
  show ?thesis
  proof (cases "hd sb")
    case (Good t v)
    with ok sp show ?thesis using pending_strict_prefix_closed by auto
  next
    case (Bad t)
    with ok sp show ?thesis using pending_strict_prefix_closed by auto
  next
    case (Junk t)
    with ok sp have "CHR ''{'' \<notin> set p" by (auto simp: strict_prefix_def prefix_def)
    then show ?thesis by (rule pending_no_brace)
  qed
qed

lemma prefix_segments:
  "prefix a (texts segs @ q) \<Longrightarrow>
   \<exists>sa sb p. segs = sa @ sb \<and> a = texts sa @ p \<and> tip p sb q"
proof (induction segs arbitrary: a)
  case Nil
  then have "[] = [] @ ([] :: segment list) \<and> a = texts [] @ a \<and> tip a [] q"
    by (simp add: tip_def)
  then show ?case by blast
next
  case (Cons s segs)
  show ?case
  proof (cases "strict_prefix a (seg_text s)")
    case True
    then have "s # segs = [] @ (s # segs) \<and> a = texts [] @ a \<and> tip a (s # segs) q"
      by (simp add: tip_def)
    then show ?thesis by blast
  next
    case False
    from Cons.prems have "prefix a (seg_text s @ (texts segs @ q))" by simp
    then have "prefix a (seg_text s) \<or> (\<exists>us. a = seg_text s @ us \<and> prefix us (texts segs @ q))"
      by (simp only: prefix_append)
    with False obtain us where a: "a = seg_text s @ us" and us: "prefix us (texts segs @ q)"
      by (auto simp: strict_prefix_def)
    from Cons.IH [OF us] obtain sa sb p where "segs = sa @ sb" "us = texts sa @ p" "tip p sb q"
      by blast
    with a have "s # segs = (s # sa) @ sb \<and> a = texts (s # sa) @ p \<and> tip p sb q" by simp
    then show ?thesis by blast
  qed
qed

lemma trail_append: "trail acc (xs @ ys) = trail (trail acc xs) ys"
proof (induction xs arbitrary: acc)
  case Nil
  show ?case by simp
next
  case (Cons x xs)
  then show ?case by (cases x) simp_all
qed

lemma trail_no_vals: "vals xs = [] \<Longrightarrow> trail acc xs = acc @ xs"
proof (induction xs arbitrary: acc)
  case Nil
  show ?case by simp
next
  case (Cons x xs)
  then show ?case by (cases x) simp_all
qed

lemma vals_trail: "vals acc = [] \<Longrightarrow> vals (trail acc xs) = []"
proof (induction xs arbitrary: acc)
  case Nil
  then show ?case by simp
next
  case (Cons x xs)
  then show ?case by (cases x) simp_all
qed

lemma set_trail: "set (trail acc xs) \<subseteq> set acc \<union> set xs"
proof (induction xs arbitrary: acc)
  case Nil
  show ?case by simp
next
  case (Cons x xs)
  show ?case using Cons [of "[]"] Cons [of "acc @ [x]"] by (cases x) auto
qed

lemma stream_text_simps [simp]:
  "stream_text [] = []"
  "stream_text (None # rest) = stream_text rest"
  "stream_text (Some t # rest) = t @ stream_text rest"
  by (simp_all add: stream_text_def)

lemma stream_segments:
  "\<forall>s \<in> set skipped \<union> set segs. seg_ok s \<Longrightarrow> vals skipped = [] \<Longrightarrow> inert q \<Longrightarrow>
   tip p segs q \<Longrightarrow> p @ stream_text chunks = texts segs @ q \<Longrightarrow>
   parseJsonStream_from (texts skipped @ p) chunks = (vals segs, texts (trail skipped segs) @ q)"
proof (induction chunks arbitrary: skipped p segs)
  case Nil
  show ?case
  proof (cases "segs = []")
    case True
    with Nil.prems show ?thesis by simp
  next
    case False
    with Nil.prems(4) have "length p < length (seg_text (hd segs))"
      by (auto simp: tip_def dest: prefix_length_less)
    also have "\<dots> \<le> length (texts segs @ q)" using False by (cases segs) auto
    also have "\<dots> = length p" using Nil.prems(5) by simp
    finally show ?thesis by simp
  qed
next
  case (Cons chunk rest)
  show ?case
  proof (cases chunk)
    case None
    with Cons.prems Cons.IH [of skipped segs p] show ?thesis by simp
  next
    case (Some t)
    from Cons.prems(5) Some have eq: "p @ t @ stream_text rest = texts segs @ q" by simp
    then have "prefix (p @ t) (texts segs @ q)" by (metis append.assoc prefixI)
    from prefix_segments [OF this] obtain sa sb p'
      where segs: "segs = sa @ sb" and pt: "p @ t = texts sa @ p'" and tip': "tip p' sb q"
      by blast
    from Cons.prems(1) segs have ok_sb: "\<forall>s \<in> set sb. seg_ok s"
      and ok_all: "\<forall>s \<in> set (skipped @ sa). seg_ok s" by auto
    from tip_pending [OF ok_sb Cons.prems(3) tip'] have pend: "pending p'" .
    let ?skipped' = "trail [] (skipped @ sa)"
    have buf: "(texts skipped @ p) @ t = texts [] @ texts (skipped @ sa) @ p'"
      using pt by simp
    have dr: "drain ((texts skipped @ p) @ t) (indexOf ((texts skipped @ p) @ t) CHR ''{'' 0)
                = (vals (skipped @ sa), texts ?skipped' @ p')"
      unfolding buf using drain_segments [OF ok_all pend, of "[]"]
      by (simp add: option.map_ident)
    have ok': "\<forall>s \<in> set ?skipped' \<union> set sb. seg_ok s"
      using set_trail [of "[]" "skipped @ sa"] ok_all ok_sb by auto
    have nv: "vals ?skipped' = []" by (rule vals_trail) simp
    have rest: "p' @ stream_text rest = texts sb @ q"
    proof -
      from eq pt have "texts sa @ p' @ stream_text rest = texts sa @ texts sb @ q"
        using segs by (metis append.assoc texts_simps(3))
      then show ?thesis by simp
    qed
    from Cons.IH [OF ok' nv Cons.prems(3) tip' rest]
    have ih: "parseJsonStream_from (texts ?skipped' @ p') rest
                = (vals sb, texts (trail ?skipped' sb) @ q)" .
    have tr: "trail ?skipped' sb = trail skipped segs"
      using Cons.prems(2) by (simp add: segs trail_append trail_no_vals)
    show ?thesis
      using Some dr ih tr Cons.prems(2) by (simp add: segs)
  qed
qed

subsection \<open>Every value comes from a closed span of the consumed text\<close>

text \<open>
  \<open>consumed pieces\<close> is a text cut into gaps and spans; \<open>span_value\<close> relates a piece to
  the value yielded for its span; \<open>object_value s v\<close> says that the text \<open>s\<close> is a closed
  span and parses to \<open>v\<close>.
\<close>

definition consumed :: "(string \<times> string) list \<Rightarrow> string" where
  "consumed pieces = concat (map (\<lambda>(gap, span). gap @ span) pieces)"

definition span_value :: "string \<times> string \<Rightarrow> json \<Rightarrow> bool" where
  "span_value piece v = (closed_span (snd piece) \<and> JSON_parse (snd piece) = Some v)"

lemma closed_span_substring:
  assumes fe: "find_end buffer start = Some e" and hd: "buffer ! start = CHR ''{''"
  shows "closed_span (substring buffer start (e + 1))"
proof -
  from find_end_bounds [OF fe] have b: "start \<le> e" "e < length buffer" by auto
  let ?s = "drop start buffer"
  from fe have "scan_braces 0 (0 + start) (0 + start) ?s = Some e" by (simp add: find_end_def)
  then have "map_option (\<lambda>n. n + start) (scan_braces 0 0 0 ?s) = Some e"
    by (simp only: scan_braces_shift)
  then have "scan_braces 0 0 0 ?s = Some (e - start)" by auto
  from scan_braces_take [OF this]
  have "scan_braces 0 0 0 (take (Suc (e - start)) ?s) = Some (e - start)" by simp
  moreover have sub: "substring buffer start (e + 1) = take (Suc (e - start)) ?s"
    using b by (simp add: substring_def Suc_diff_le)
  moreover have len: "length (take (Suc (e - start)) ?s) = Suc (e - start)" using b by simp
  moreover have "hd (take (Suc (e - start)) ?s) = CHR ''{''"
    using b hd by (simp add: hd_drop_conv_nth)
  ultimately show ?thesis
    unfolding closed_span_def find_end_def by (metis diff_Suc_1 drop0 length_0_conv nat.simps(3))
qed

lemma split_at_span:
  assumes "start \<le> e" and "e < length buffer"
  shows "buffer = take start buffer @ substring buffer start (e + 1) @ drop (e + 1) buffer"
proof -
  have "drop (e + 1 - start) (drop start buffer) = drop (e + 1) buffer"
    using assms by simp
  then have "substring buffer start (e + 1) @ drop (e + 1) buffer = drop start buffer"
    unfolding substring_def by (metis append_take_drop_id)
  then show ?thesis by simp
qed

lemma drain_pieces:
  "(\<forall>s. start = Some s \<longrightarrow> buffer ! s = CHR ''{'') \<Longrightarrow>
   \<exists>pieces. buffer = consumed pieces @ snd (drain buffer start)
         \<and> list_all2 span_value pieces (fst (drain buffer start))"
proof (induction buffer start rule: drain.induct)
  case (1 buffer)
  have "buffer = consumed [] @ snd (drain buffer None) \<and> list_all2 span_value [] (fst (drain buffer None))"
    by (simp add: consumed_def)
  then show ?case by blast
next
  case (2 buffer start)
  from "2.prems" have hd: "buffer ! start = CHR ''{''" by simp
  show ?case
  proof (cases "find_end buffer start")
    case None
    then have "buffer = consumed [] @ snd (drain buffer (Some start))
               \<and> list_all2 span_value [] (fst (drain buffer (Some start)))"
      by (simp add: consumed_def)
    then show ?thesis by blast
  next
    case (Some e)
    from find_end_bounds [OF Some] have b: "start \<le> e" "e < length buffer" by auto
    let ?span = "substring buffer start (e + 1)"
    show ?thesis
    proof (cases "JSON_parse ?span")
      case None
      have "\<forall>s. indexOf buffer CHR ''{'' (start + 1) = Some s \<longrightarrow> buffer ! s = CHR ''{''"
        using indexOf_Some_nth by blast
      from "2.IH"(1) [OF Some None this] Some None show ?thesis by simp
    next
      case (Some v)
      let ?b' = "drop (e + 1) buffer"
      have "\<forall>s. indexOf ?b' CHR ''{'' 0 = Some s \<longrightarrow> ?b' ! s = CHR ''{''"
        using indexOf_Some_nth by blast
      from "2.IH"(2) [OF \<open>find_end buffer start = Some e\<close> Some refl this]
      obtain pieces where p: "?b' = consumed pieces @ snd (drain ?b' (indexOf ?b' CHR ''{'' 0))"
        "list_all2 span_value pieces (fst (drain ?b' (indexOf ?b' CHR ''{'' 0)))"
        by blast
      let ?pieces = "(take start buffer, ?span) # pieces"
      have dr: "drain buffer (Some start)
                  = (v # fst (drain ?b' (indexOf ?b' CHR ''{'' 0)),
                     snd (drain ?b' (indexOf ?b' CHR ''{'' 0)))"
        using \<open>find_end buffer start = Some e\<close> Some by (simp add: case_prod_beta Let_def)
      have "span_value (take start buffer, ?span) v"
        using closed_span_substring [OF \<open>find_end buffer start = Some e\<close> hd] Some
        by (simp add: span_value_def)
      with p(2) have 1: "list_all2 span_value ?pieces (fst (drain buffer (Some start)))"
        unfolding dr by simp
      have "buffer = take start buffer @ ?span @ ?b'" using b by (rule split_at_span)
      with p(1) have 2: "buffer = consumed ?pieces @ snd (drain buffer (Some start))"
        unfolding dr by (simp add: consumed_def)
      from 1 2 show ?thesis by blast
    qed
  qed
qed

lemma stream_pieces:
  "\<exists>pieces. buffer @ stream_text chunks = consumed pieces @ snd (parseJsonStream_from buffer chunks)
         \<and> list_all2 span_value pieces (fst (parseJsonStream_from buffer chunks))"
proof (induction chunks arbitrary: buffer)
  case Nil
  have "buffer @ stream_text [] = consumed [] @ snd (parseJsonStream_from buffer [])
        \<and> list_all2 span_value [] (fst (parseJsonStream_from buffer []))"
    by (simp add: consumed_def)
  then show ?case by blast
next
  case (Cons chunk rest)
  show ?case
  proof (cases chunk)
    case None
    with Cons [of buffer] show ?thesis by simp
  next
    case (Some t)
    let ?b1 = "buffer @ t"
    let ?d = "drain ?b1 (indexOf ?b1 CHR ''{'' 0)"
    have "\<forall>s. indexOf ?b1 CHR ''{'' 0 = Some s \<longrightarrow> ?b1 ! s = CHR ''{''"
      using indexOf_Some_nth by blast
    from drain_pieces [OF this] obtain p1
      where p1: "?b1 = consumed p1 @ snd ?d" "list_all2 span_value p1 (fst ?d)" by blast
    from Cons [of "snd ?d"] obtain p2
      where p2: "snd ?d @ stream_text rest = consumed p2 @ snd (parseJsonStream_from (snd ?d) rest)"
        "list_all2 span_value p2 (fst (parseJsonStream_from (snd ?d) rest))" by blast
    have res: "parseJsonStream_from buffer (chunk # rest)
                 = (fst ?d @ fst (parseJsonStream_from (snd ?d) rest),
                    snd (parseJsonStream_from (snd ?d) rest))"
      using Some by (simp add: case_prod_beta Let_def)
    have "buffer @ stream_text (chunk # rest) = ?b1 @ stream_text rest" using Some by simp
    also have "\<dots> = consumed p1 @ snd ?d @ stream_text rest" using p1(1) by (metis append.assoc)
    also have "\<dots> = consumed (p1 @ p2) @ snd (parseJsonStream_from (snd ?d) rest)"
      using p2(1) by (simp add: consumed_def)
    finally have 1: "buffer @ stream_text (chunk # rest)
                       = consumed (p1 @ p2) @ snd (parseJsonStream_from buffer (chunk # rest))"
      by (simp only: res snd_conv)
    have 2: "list_all2 span_value (p1 @ p2) (fst (parseJsonStream_from buffer (chunk # rest)))"
      using p1(2) p2(2) by (simp only: res fst_conv list_all2_appendI)
    from 1 2 show ?thesis by blast
  qed
qed

definition object_value :: "string \<Rightarrow> json \<Rightarrow> bool" where
  "object_value s v = (closed_span s \<and> JSON_parse s = Some v)"

lemma good_segments:
  "list_all2 object_value objs vs \<Longrightarrow>
   (\<forall>s \<in> set (map2 Good objs vs). seg_ok s)
   \<and> texts (map2 Good objs vs) = concat objs \<and> vals (map2 Good objs vs) = vs"
  by (induction rule: list_all2_induct) (auto simp: object_value_def)

lemma tip_Nil: "\<forall>s \<in> set segs. seg_ok s \<Longrightarrow> tip [] segs q"
  by (cases segs) (auto simp: tip_def strict_prefix_def dest: seg_ok_nonempty)

lemma decode_objects_then_partial:
  assumes objs: "list_all2 object_value objs vs" and q: "inert q"
    and st: "stream_text chunks = concat objs @ q"
  shows "parseJsonStream_from [] chunks = (vs, q)"
proof -
  let ?segs = "map2 Good objs vs"
  from good_segments [OF objs] have ok: "\<forall>s \<in> set ?segs. seg_ok s"
    and t: "texts ?segs = concat objs" and v: "vals ?segs = vs" by auto
  have "parseJsonStream_from (texts [] @ []) chunks = (vals ?segs, texts (trail [] ?segs) @ q)"
  proof (rule stream_segments)
    show "\<forall>s \<in> set [] \<union> set ?segs. seg_ok s" using ok by simp
    show "vals [] = []" by simp
    show "inert q" by (rule q)
    show "tip [] ?segs q" using ok by (rule tip_Nil)
    show "[] @ stream_text chunks = texts ?segs @ q" using st t by simp
  qed
  moreover have "trail [] ?segs = []"
    using objs by (induction rule: list_all2_induct) auto
  ultimately show ?thesis using v by simp
qed


subsection \<open>Objects without a brace in their strings are closed spans\<close>

text \<open>
  \<open>no_brace_in_strings False s\<close> reads \<open>s\<close> as a lexer does, a quote opening or closing
  a string literal and a backslash escaping the next character, and says that no brace
  stands inside a string literal. \<open>net\<close> is the number of opening braces of a text minus
  the number of closing ones. The parser reads text whose \<open>net\<close> is zero and never
  negative on the way (\<open>level_ok\<close>), and, up to the brace that closes an object, text
  whose \<open>net\<close> is \<open>-1\<close> at the end and not negative before (\<open>closes\<close>). So the text
  of an object that parses, with nothing after its closing brace and no brace inside a
  string literal, is a closed span.
\<close>

fun no_brace_in_strings :: "bool \<Rightarrow> string \<Rightarrow> bool" where
  "no_brace_in_strings inside [] = True"
| "no_brace_in_strings False (c # cs) =
     (if c = CHR 0x22 then no_brace_in_strings True cs else no_brace_in_strings False cs)"
| "no_brace_in_strings True (c # cs) =
     (if c = CHR 0x22 then no_brace_in_strings False cs
      else if c = CHR 0x5C then
        (case cs of [] \<Rightarrow> True
         | e # cs' \<Rightarrow> e \<noteq> CHR ''{'' \<and> e \<noteq> CHR ''}'' \<and> no_brace_in_strings True cs')
      else c \<noteq> CHR ''{'' \<and> c \<noteq> CHR ''}'' \<and> no_brace_in_strings True cs)"

fun net :: "string \<Rightarrow> int" where
  "net [] = 0"
| "net (c # cs) = (if c = CHR ''{'' then 1 else if c = CHR ''}'' then - 1 else 0) + net cs"

definition brace_free :: "string \<Rightarrow> bool" where
  "brace_free c = (CHR ''{'' \<notin> set c \<and> CHR ''}'' \<notin> set c)"

definition plain :: "string \<Rightarrow> bool" where
  "plain c = (brace_free c \<and> CHR 0x22 \<notin> set c)"

definition level_ok :: "string \<Rightarrow> bool" where
  "level_ok c = (net c = 0 \<and> (\<forall>k. 0 \<le> net (take k c)))"

definition closes :: "string \<Rightarrow> bool" where
  "closes c = (net c = - 1 \<and> (\<forall>k < length c. 0 \<le> net (take k c)))"

lemma net_append [simp]: "net (a @ b) = net a + net b"
  by (induction a) auto

lemma net_brace_free: "brace_free c \<Longrightarrow> net c = 0"
  by (induction c) (auto simp: brace_free_def)

lemma brace_free_take: "brace_free c \<Longrightarrow> brace_free (take k c)"
  by (auto simp: brace_free_def dest: in_set_takeD)

lemma level_ok_brace_free: "brace_free c \<Longrightarrow> level_ok c"
  by (simp add: level_ok_def net_brace_free brace_free_take)

lemma level_ok_Nil [simp]: "level_ok []"
  by (simp add: level_ok_def)

lemma level_ok_append: "level_ok a \<Longrightarrow> level_ok b \<Longrightarrow> level_ok (a @ b)"
  unfolding level_ok_def
proof (intro conjI allI)
  assume a: "net a = 0 \<and> (\<forall>k. 0 \<le> net (take k a))" and b: "net b = 0 \<and> (\<forall>k. 0 \<le> net (take k b))"
  then show "net (a @ b) = 0" by simp
  fix k
  show "0 \<le> net (take k (a @ b))"
  proof (cases "k \<le> length a")
    case True
    with a show ?thesis by simp
  next
    case False
    with a b show ?thesis by simp
  qed
qed

lemma closes_append: "level_ok a \<Longrightarrow> closes b \<Longrightarrow> closes (a @ b)"
  unfolding level_ok_def closes_def
proof (intro conjI allI impI)
  assume a: "net a = 0 \<and> (\<forall>k. 0 \<le> net (take k a))"
    and b: "net b = - 1 \<and> (\<forall>k < length b. 0 \<le> net (take k b))"
  then show "net (a @ b) = - 1" by simp
  fix k assume k: "k < length (a @ b)"
  show "0 \<le> net (take k (a @ b))"
  proof (cases "k \<le> length a")
    case True
    with a show ?thesis by simp
  next
    case False
    with k have "k - length a < length b" by simp
    with a b False show ?thesis by simp
  qed
qed

lemma closes_brace: "closes ''}''"
  by (simp add: closes_def)

lemma level_ok_object: "closes m \<Longrightarrow> level_ok (CHR ''{'' # m)"
  unfolding level_ok_def closes_def
proof (intro conjI allI)
  assume m: "net m = - 1 \<and> (\<forall>k < length m. 0 \<le> net (take k m))"
  then show "net (CHR ''{'' # m) = 0" by simp
  fix k
  show "0 \<le> net (take k (CHR ''{'' # m))"
  proof (cases k)
    case 0
    then show ?thesis by simp
  next
    case (Suc j)
    show ?thesis
    proof (cases "j < length m")
      case True
      with m Suc show ?thesis by simp
    next
      case False
      with m Suc show ?thesis by simp
    qed
  qed
qed

lemma no_brace_plain_prefix:
  "plain w \<Longrightarrow> no_brace_in_strings False (w @ r) = no_brace_in_strings False r"
  by (induction w) (auto simp: plain_def brace_free_def)

lemma plain_append: "plain a \<Longrightarrow> plain b \<Longrightarrow> plain (a @ b)"
  by (auto simp: plain_def brace_free_def)

lemma plain_level_ok: "plain c \<Longrightarrow> level_ok c"
  by (simp add: plain_def level_ok_brace_free)

lemma skip_ws_split: "\<exists>w. s = w @ skip_ws s \<and> plain w"
proof -
  have "s = takeWhile is_json_ws s @ skip_ws s" by (simp add: skip_ws_def)
  moreover have "plain (takeWhile is_json_ws s)"
    by (auto simp: plain_def brace_free_def is_json_ws_def dest!: set_takeWhileD)
  ultimately show ?thesis by blast
qed

lemma parse_chars_brace_free:
  "parse_chars s = Some (us, r) \<Longrightarrow> no_brace_in_strings True s \<Longrightarrow>
   \<exists>c. s = c @ r \<and> brace_free c \<and> no_brace_in_strings False r"
proof (induction s arbitrary: us rule: parse_chars.induct)
  case 1
  then show ?case by simp
next
  case (2 c cs)
  show ?case
  proof (cases "c = CHR 0x22")
    case True
    with "2.prems" have "c # cs = [c] @ r \<and> brace_free [c] \<and> no_brace_in_strings False r"
      by (simp add: brace_free_def)
    then show ?thesis by blast
  next
    case nq: False
    show ?thesis
    proof (cases "c = CHR 0x5C")
      case True
      show ?thesis
      proof (cases cs)
        case Nil
        with "2.prems" nq True show ?thesis by simp
      next
        case (Cons e cs')
        from "2.prems"(2) nq True Cons have e: "e \<noteq> CHR ''{'' \<and> e \<noteq> CHR ''}''"
          and nb: "no_brace_in_strings True cs'" by simp_all
        show ?thesis
        proof (cases "e = CHR ''u''")
          case u: True
          with "2.prems" nq True Cons obtain w where w: "hex4 cs' = Some w"
            and "cons_unit w (parse_chars (drop 4 cs')) = Some (us, r)"
            by (auto split: option.splits)
          then obtain us' where pc: "parse_chars (drop 4 cs') = Some (us', r)"
            using cons_unit_Some by blast
          from w obtain h1 h2 h3 h4 t where cs': "cs' = h1 # h2 # h3 # h4 # t"
            by (cases cs' rule: hex4.cases) auto
          with w have hx: "hex_val h1 \<noteq> None \<and> hex_val h2 \<noteq> None
                             \<and> hex_val h3 \<noteq> None \<and> hex_val h4 \<noteq> None"
            by (auto split: option.splits)
          have hv: "hex_val x \<noteq> None \<Longrightarrow> x \<noteq> CHR ''{'' \<and> x \<noteq> CHR ''}''
                      \<and> x \<noteq> CHR 0x22 \<and> x \<noteq> CHR 0x5C" for x
            by (auto simp: hex_val_def Let_def split: if_splits)
          from hx hv have pl: "brace_free [h1, h2, h3, h4]"
            and nbt: "no_brace_in_strings True (h1 # h2 # h3 # h4 # t) = no_brace_in_strings True t"
            by (auto simp: brace_free_def)
          from nb cs' nbt have "no_brace_in_strings True (drop 4 cs')" by simp
          from "2.IH"(1) [OF nq True Cons u w pc this] obtain c' where
            c': "drop 4 cs' = c' @ r" "brace_free c'" "no_brace_in_strings False r" by blast
          from c'(1) cs' have "t = c' @ r" by simp
          with Cons cs' have "c # cs = (c # e # h1 # h2 # h3 # h4 # c') @ r" by simp
          moreover have "brace_free (c # e # h1 # h2 # h3 # h4 # c')"
            using True e pl c'(2) by (auto simp: brace_free_def)
          ultimately show ?thesis using c'(3) by blast
        next
          case nu: False
          with "2.prems" nq True Cons obtain w where w: "unescape e = Some w"
            and "cons_unit w (parse_chars cs') = Some (us, r)"
            by (auto split: option.splits)
          then obtain us' where pc: "parse_chars cs' = Some (us', r)"
            using cons_unit_Some by blast
          from "2.IH"(2) [OF nq True Cons nu w pc nb] obtain c' where
            c': "cs' = c' @ r" "brace_free c'" "no_brace_in_strings False r" by blast
          with Cons have "c # cs = (c # e # c') @ r" by simp
          moreover have "brace_free (c # e # c')"
            using True e c'(2) by (auto simp: brace_free_def)
          ultimately show ?thesis using c'(3) by blast
        qed
      qed
    next
      case nb: False
      with "2.prems" nq have ctl: "\<not> (of_char c :: nat) < 32"
        and "cons_unit (of_char c) (parse_chars cs) = Some (us, r)"
        by (auto split: if_splits)
      then obtain us' where pc: "parse_chars cs = Some (us', r)"
        using cons_unit_Some by blast
      from "2.prems"(2) nq nb have cb: "c \<noteq> CHR ''{'' \<and> c \<noteq> CHR ''}''"
        and nbs: "no_brace_in_strings True cs" by simp_all
      from "2.IH"(3) [OF nq nb ctl pc nbs] obtain c' where
        c': "cs = c' @ r" "brace_free c'" "no_brace_in_strings False r" by blast
      then have "c # cs = (c # c') @ r" by simp
      moreover have "brace_free (c # c')" using cb c'(2) by (auto simp: brace_free_def)
      ultimately show ?thesis using c'(3) by blast
    qed
  qed
qed

definition eats :: "string \<Rightarrow> string \<Rightarrow> bool" where
  "eats s r = (\<exists>d. s = d @ r \<and> plain d)"

lemma eats_refl: "eats s s"
  unfolding eats_def by (rule exI [of _ "[]"]) (simp add: plain_def brace_free_def)

lemma eats_trans: "eats s t \<Longrightarrow> eats t r \<Longrightarrow> eats s r"
  unfolding eats_def using plain_append by (metis append.assoc)

lemma eats_drop: "plain (take k s) \<Longrightarrow> eats s (drop k s)"
  unfolding eats_def by (metis append_take_drop_id)

lemma plain_digits: "plain (takeWhile is_digit s)"
  by (auto simp: plain_def brace_free_def is_digit_def dest!: set_takeWhileD)

lemma eats_digits: "eats s (drop (length (takeWhile is_digit s)) s)"
  by (rule eats_drop) (simp add: takeWhile_eq_take [symmetric] plain_digits)

lemma plain_single: "x \<noteq> CHR ''{'' \<Longrightarrow> x \<noteq> CHR ''}'' \<Longrightarrow> x \<noteq> CHR 0x22 \<Longrightarrow> plain [x]"
  by (simp add: plain_def brace_free_def)

lemma eats_one:
  "take (Suc 0) s = [x] \<Longrightarrow> x \<noteq> CHR ''{'' \<Longrightarrow> x \<noteq> CHR ''}'' \<Longrightarrow> x \<noteq> CHR 0x22 \<Longrightarrow>
   eats s (drop (Suc 0) s)"
  by (rule eats_drop) (simp add: plain_single)

lemma parse_number_eats:
  assumes "parse_number s = Some (v, r)"
  shows "eats s r"
proof -
  define neg where "neg = (take 1 s = ''-'')"
  define s1 where "s1 = (if neg then drop 1 s else s)"
  define ip where "ip = (if take 1 s1 = ''0'' then ''0'' else takeWhile is_digit s1)"
  define s2 where "s2 = drop (length ip) s1"
  define has_frac where "has_frac = (take 1 s2 = ''.'')"
  define fp where "fp = (if has_frac then takeWhile is_digit (drop 1 s2) else [])"
  define s3 where "s3 = (if has_frac then drop (1 + length fp) s2 else s2)"
  define has_exp where "has_exp = (take 1 s3 = ''e'' \<or> take 1 s3 = ''E'')"
  define s4 where "s4 = (if has_exp then drop 1 s3 else s3)"
  define eneg where "eneg = (has_exp \<and> take 1 s4 = ''-'')"
  define s5 where "s5 = (if has_exp \<and> (take 1 s4 = ''-'' \<or> take 1 s4 = ''+'') then drop 1 s4 else s4)"
  define ep where "ep = (if has_exp then takeWhile is_digit s5 else [])"
  define s6 where "s6 = drop (length ep) s5"
  define e where "e = (if eneg then - int (digits_val ep) else int (digits_val ep))"
  have unf: "parse_number s =
      (if ip = [] \<or> (has_frac \<and> fp = []) \<or> (has_exp \<and> ep = []) then None
       else Some (JNumber neg (digits_val (ip @ fp)) (e - int (length fp)), s6))"
    unfolding parse_number_def neg_def s1_def ip_def s2_def has_frac_def fp_def s3_def
      has_exp_def s4_def eneg_def s5_def ep_def s6_def e_def Let_def ..
  from assms have r: "r = s6" unfolding unf by (auto split: if_splits)
  have 1: "eats s s1"
    unfolding s1_def neg_def by (auto intro: eats_refl eats_one)
  have 2: "eats s1 s2"
  proof (cases "take 1 s1 = ''0''")
    case True
    then show ?thesis unfolding s2_def ip_def using eats_one [of s1 "CHR ''0''"] by simp
  next
    case False
    then show ?thesis unfolding s2_def ip_def using eats_digits [of s1] by simp
  qed
  have 3: "eats s2 s3"
  proof (cases has_frac)
    case True
    then have t: "take 1 s2 = ''.''" by (simp add: has_frac_def)
    have "take (1 + length fp) s2 = take 1 s2 @ take (length fp) (drop 1 s2)"
      by (simp only: take_add)
    also have "\<dots> = ''.'' @ fp"
      using True t by (simp add: fp_def takeWhile_eq_take [symmetric])
    finally have "plain (take (1 + length fp) s2)"
      using True plain_digits [of "drop 1 s2"] plain_append [OF plain_single [of "CHR ''.''"]]
      by (simp add: fp_def)
    from eats_drop [OF this] True show ?thesis by (simp add: s3_def)
  next
    case False
    then show ?thesis by (simp add: s3_def eats_refl)
  qed
  have 4: "eats s3 s4"
    unfolding s4_def has_exp_def by (auto intro: eats_refl eats_one)
  have 5: "eats s4 s5"
    unfolding s5_def by (auto intro: eats_refl eats_one)
  have 6: "eats s5 s6"
    unfolding s6_def ep_def using eats_digits [of s5] by (auto intro: eats_refl simp: eats_refl)
  from 1 2 3 4 5 6 show ?thesis unfolding r by (blast intro: eats_trans)
qed

lemma plain_literal:
  "plain ''true''" "plain ''false''" "plain ''null''"
  by (simp_all add: plain_def brace_free_def)

definition reads :: "string \<Rightarrow> string \<Rightarrow> bool" where
  "reads s r = ((\<exists>c. s = c @ r \<and> level_ok c)
                \<and> (no_brace_in_strings False s \<longrightarrow> no_brace_in_strings False r))"

definition reads_close :: "string \<Rightarrow> string \<Rightarrow> bool" where
  "reads_close s r = ((\<exists>c. s = c @ r \<and> closes c)
                      \<and> (no_brace_in_strings False s \<longrightarrow> no_brace_in_strings False r))"

lemma eats_reads: "eats s r \<Longrightarrow> reads s r"
  unfolding eats_def reads_def using plain_level_ok no_brace_plain_prefix by blast

lemma reads_trans: "reads s t \<Longrightarrow> reads t r \<Longrightarrow> reads s r"
  unfolding reads_def using level_ok_append by (metis append.assoc)

lemma reads_close_trans: "reads s t \<Longrightarrow> reads_close t r \<Longrightarrow> reads_close s r"
  unfolding reads_def reads_close_def using closes_append by (metis append.assoc)

lemma reads_nbis: "reads s r \<Longrightarrow> no_brace_in_strings False s \<Longrightarrow> no_brace_in_strings False r"
  by (simp add: reads_def)

lemma eats_skip_ws: "eats s (skip_ws s)"
  unfolding eats_def using skip_ws_split by blast

lemma eats_char:
  "x \<noteq> CHR ''{'' \<Longrightarrow> x \<noteq> CHR ''}'' \<Longrightarrow> x \<noteq> CHR 0x22 \<Longrightarrow> eats (x # t) t"
  unfolding eats_def using plain_single [of x] by (metis append_Cons append_Nil)

lemma eats_skip_ws_Cons:
  assumes "skip_ws s = x # t" and "x \<noteq> CHR ''{''" "x \<noteq> CHR ''}''" "x \<noteq> CHR 0x22"
  shows "eats s t"
  using eats_skip_ws [of s] eats_char [OF assms(2-4), of t] assms(1) by (auto intro: eats_trans)

lemma reads_string:
  assumes "parse_chars cs = Some (us, r)" and "no_brace_in_strings False (CHR 0x22 # cs)"
  shows "reads (CHR 0x22 # cs) r"
proof -
  from assms(2) have "no_brace_in_strings True cs" by simp
  from parse_chars_brace_free [OF assms(1) this] obtain c
    where c: "cs = c @ r" "brace_free c" "no_brace_in_strings False r" by blast
  then have "CHR 0x22 # cs = (CHR 0x22 # c) @ r" "brace_free (CHR 0x22 # c)"
    by (simp_all add: brace_free_def)
  with c(3) show ?thesis unfolding reads_def using level_ok_brace_free by blast
qed

lemma reads_close_brace: "reads_close (CHR ''}'' # r) r"
proof -
  have "CHR ''}'' # r = ''}'' @ r \<and> closes ''}''" using closes_brace by simp
  then have "\<exists>c. CHR ''}'' # r = c @ r \<and> closes c" by blast
  then show ?thesis by (simp add: reads_close_def)
qed

lemma reads_object:
  assumes "reads_close cs r"
  shows "reads (CHR ''{'' # cs) r"
proof -
  from assms obtain c where c: "cs = c @ r" "closes c" by (auto simp: reads_close_def)
  then have "CHR ''{'' # cs = (CHR ''{'' # c) @ r \<and> level_ok (CHR ''{'' # c)"
    using level_ok_object by simp
  then have "\<exists>c. CHR ''{'' # cs = c @ r \<and> level_ok c" by blast
  with assms show ?thesis by (simp add: reads_def reads_close_def)
qed

lemma parse_reads:
  "parse_value s = Some (v, r) \<Longrightarrow> no_brace_in_strings False s \<Longrightarrow> reads s r"
  "parse_elements s1 = Some (vs, r1) \<Longrightarrow> no_brace_in_strings False s1 \<Longrightarrow> reads s1 r1"
  "parse_members s2 = Some (kvs, r2) \<Longrightarrow> no_brace_in_strings False s2 \<Longrightarrow> reads_close s2 r2"
proof (induction s and s1 and s2 arbitrary: v r and vs r1 and kvs r2
    rule: parse_value_parse_elements_parse_members.induct)
  case 1
  then show ?case by simp
next
  case (2 c cs)
  show ?case
  proof (cases "c = CHR ''{''")
    case True
    from "2.prems"(2) True have nb: "no_brace_in_strings False cs" by simp
    show ?thesis
    proof (cases "skip_ws cs")
      case Nil
      with "2.prems" True show ?thesis by simp
    next
      case (Cons d rest)
      show ?thesis
      proof (cases "d = CHR ''}''")
        case cl: True
        with "2.prems" True Cons have r: "r = rest" by simp
        have "reads cs (CHR ''}'' # rest)"
          using eats_skip_ws [of cs] Cons cl by (auto intro: eats_reads)
        then have "reads_close cs rest" using reads_close_brace by (rule reads_close_trans)
        then show ?thesis unfolding r True by (rule reads_object)
      next
        case False
        with "2.prems" True Cons obtain kvs where pm: "parse_members cs = Some (kvs, r)"
          by (auto split: option.splits)
        from "2.IH"(1) [OF True Cons False pm nb] show ?thesis unfolding True by (rule reads_object)
      qed
    qed
  next
    case nb: False
    show ?thesis
    proof (cases "c = CHR ''[''")
      case True
      have e1: "eats (c # cs) cs" unfolding True by (rule eats_char) simp_all
      from e1 "2.prems"(2) have nbs: "no_brace_in_strings False cs"
        using eats_reads reads_nbis by blast
      show ?thesis
      proof (cases "skip_ws cs")
        case Nil
        with "2.prems" nb True show ?thesis by simp
      next
        case (Cons d rest)
        show ?thesis
        proof (cases "d = CHR '']''")
          case cl: True
          with "2.prems" nb True Cons have r: "r = rest" by simp
          have "eats cs rest" using Cons cl by (intro eats_skip_ws_Cons [of cs d]) simp_all
          with e1 show ?thesis unfolding r by (blast intro: eats_trans eats_reads)
        next
          case False
          with "2.prems" nb True Cons obtain vs where pe: "parse_elements cs = Some (vs, r)"
            by (auto split: option.splits)
          from "2.IH"(2) [OF nb True Cons False pe nbs] e1 show ?thesis
            by (blast intro: reads_trans eats_reads)
        qed
      qed
    next
      case na: False
      show ?thesis
      proof (cases "c = CHR 0x22")
        case True
        with "2.prems" nb na obtain us where "parse_chars cs = Some (us, r)"
          by (auto split: option.splits)
        then show ?thesis using "2.prems"(2) unfolding True by (rule reads_string)
      next
        case nq: False
        from "2.prems"(1) nb na nq
        consider "take 4 (c # cs) = ''true''" "r = drop 4 (c # cs)"
          | "take 5 (c # cs) = ''false''" "r = drop 5 (c # cs)"
          | "take 4 (c # cs) = ''null''" "r = drop 4 (c # cs)"
          | "parse_number (c # cs) = Some (v, r)"
          by (auto split: if_splits)
        then have "eats (c # cs) r"
        proof cases
          case 1
          then show ?thesis using eats_drop [of 4 "c # cs"] plain_literal by simp
        next
          case 2
          then show ?thesis using eats_drop [of 5 "c # cs"] plain_literal by simp
        next
          case 3
          then show ?thesis using eats_drop [of 4 "c # cs"] plain_literal by simp
        next
          case 4
          then show ?thesis by (rule parse_number_eats)
        qed
        then show ?thesis by (rule eats_reads)
      qed
    qed
  qed
next
  case (3 s)
  from "3.prems" obtain v rest where pv: "parse_value (skip_ws s) = Some (v, rest)"
    by (auto split: option.splits)
  have e1: "reads s (skip_ws s)" using eats_skip_ws by (rule eats_reads)
  with "3.prems"(2) have nb1: "no_brace_in_strings False (skip_ws s)" by (rule reads_nbis [rotated])
  from "3.IH"(1) [OF pv nb1] have r1: "reads (skip_ws s) rest" .
  from "3.prems" pv obtain d rest' where sk: "skip_ws rest = d # rest'"
    by (auto split: list.splits)
  from parse_shorter(1) [OF pv] length_skip_ws [of s] length_skip_ws_Cons [OF sk]
  have l2: "length rest' < length s" by simp
  from "3.prems" pv sk l2 have d: "d = CHR '']'' \<or> d = CHR '',''"
    by (auto split: if_splits)
  then have "eats rest rest'" using sk by (intro eats_skip_ws_Cons [of rest d]) auto
  with e1 r1 have r2: "reads s rest'" by (blast intro: reads_trans eats_reads)
  show ?case
  proof (cases "d = CHR '']''")
    case True
    with "3.prems" pv sk have "r1 = rest'" by simp
    with r2 show ?thesis by simp
  next
    case False
    with "3.prems" pv sk l2 obtain vs' where c: "d = CHR '',''"
      and pe: "parse_elements rest' = Some (vs', r1)"
      by (auto split: if_splits option.splits)
    from c l2 have g: "d = CHR '','' \<and> length rest' < length s" by simp
    from r2 "3.prems"(2) have "no_brace_in_strings False rest'" by (rule reads_nbis)
    from "3.IH"(2) [OF pv refl sk False g pe this] r2 show ?thesis by (blast intro: reads_trans)
  qed
next
  case (4 s)
  from "4.prems" obtain s1 where sk: "skip_ws s = CHR 0x22 # s1"
    by (auto split: list.splits if_splits)
  from "4.prems" sk obtain k s2 where pc: "parse_chars s1 = Some (k, s2)"
    by (auto split: option.splits)
  from "4.prems" sk pc obtain s3 where sk2: "skip_ws s2 = CHR '':'' # s3" and g3: "length s3 < length s"
    by (auto split: list.splits if_splits)
  from "4.prems" sk pc sk2 g3 obtain v rest where pv: "parse_value (skip_ws s3) = Some (v, rest)"
    by (auto split: option.splits)
  have ng: "\<not> (CHR '':'' \<noteq> CHR '':'' \<or> \<not> length s3 < length s)" using g3 by simp
  have a: "reads s (CHR 0x22 # s1)" using eats_skip_ws [of s] sk by (auto intro: eats_reads)
  with "4.prems"(2) have "no_brace_in_strings False (CHR 0x22 # s1)" by (rule reads_nbis [rotated])
  with pc have b: "reads (CHR 0x22 # s1) s2" by (rule reads_string)
  have c: "reads s2 (skip_ws s3)"
  proof -
    have "eats s2 s3" using sk2 by (intro eats_skip_ws_Cons [of s2 "CHR '':''"]) simp_all
    then show ?thesis using eats_skip_ws [of s3] by (blast intro: eats_trans eats_reads)
  qed
  from a b c have abc: "reads s (skip_ws s3)" by (blast intro: reads_trans)
  with "4.prems"(2) have nb3: "no_brace_in_strings False (skip_ws s3)" by (rule reads_nbis [rotated])
  from "4.IH"(1) [OF sk _ pc refl sk2 ng pv nb3] have d: "reads (skip_ws s3) rest" by simp
  from "4.prems" sk pc sk2 g3 pv obtain d' rest' where sk3: "skip_ws rest = d' # rest'"
    by (auto split: list.splits)
  from parse_shorter(1) [OF pv] length_skip_ws [of s3] g3 length_skip_ws_Cons [OF sk3]
  have l2: "length rest' < length s" by simp
  have e: "reads rest (d' # rest')" using eats_skip_ws [of rest] sk3 by (auto intro: eats_reads)
  from abc d e have upto: "reads s (d' # rest')" by (blast intro: reads_trans)
  show ?case
  proof (cases "d' = CHR ''}''")
    case True
    with "4.prems" sk pc sk2 g3 pv sk3 have "r2 = rest'" by simp
    with upto True reads_close_brace [of rest'] show ?thesis by (auto intro: reads_close_trans)
  next
    case False
    with "4.prems" sk pc sk2 g3 pv sk3 l2 obtain kvs' where cm: "d' = CHR '',''"
      and pm: "parse_members rest' = Some (kvs', r2)"
      by (auto split: if_splits option.splits)
    from cm l2 have g: "d' = CHR '','' \<and> length rest' < length s" by simp
    have "eats (d' # rest') rest'" unfolding cm by (rule eats_char) simp_all
    with upto have r3: "reads s rest'" by (blast intro: reads_trans eats_reads)
    with "4.prems"(2) have "no_brace_in_strings False rest'" by (rule reads_nbis [rotated])
    from "4.IH"(2) [OF sk _ pc refl sk2 ng pv refl sk3 False g pm this] r3
    show ?thesis by (blast intro: reads_close_trans)
  qed
qed

lemma scan_braces_closes:
  "start < i \<Longrightarrow> t \<noteq> [] \<Longrightarrow> b + net t = 0 \<Longrightarrow>
   \<forall>k. k < length t \<longrightarrow> 0 < b + net (take k t) \<Longrightarrow>
   scan_braces b start i t = Some (i + length t - 1)"
proof (induction t arbitrary: b i)
  case Nil
  then show ?case by simp
next
  case (Cons c t)
  define b' where "b' = (if c = CHR ''{'' then b + 1 else if c = CHR ''}'' then b - 1 else b)"
  have unf: "scan_braces b start i (c # t) =
               (if b' = 0 \<and> i > start then Some i else scan_braces b' start (Suc i) t)"
    by (simp add: b'_def Let_def)
  have b': "b' = b + net [c]" by (simp add: b'_def)
  show ?case
  proof (cases "t = []")
    case True
    with Cons.prems(3) b' have "b' = 0" by simp
    with Cons.prems(1) True show ?thesis unfolding unf by simp
  next
    case False
    then have "1 < length (c # t)" by (cases t) auto
    with Cons.prems(4) have "0 < b + net (take 1 (c # t))" by blast
    with b' have pos: "b' \<noteq> 0" by simp
    have "scan_braces b' start (Suc i) t = Some (Suc i + length t - 1)"
    proof (rule Cons.IH)
      show "start < Suc i" using Cons.prems(1) by simp
      show "t \<noteq> []" by (rule False)
      show "b' + net t = 0" using Cons.prems(3) b' by simp
      show "\<forall>k. k < length t \<longrightarrow> 0 < b' + net (take k t)"
      proof (intro allI impI)
        fix k assume "k < length t"
        then have "Suc k < length (c # t)" by simp
        with Cons.prems(4) have "0 < b + net (take (Suc k) (c # t))" by blast
        then show "0 < b' + net (take k t)" using b' by simp
      qed
    qed
    with pos show ?thesis unfolding unf by simp
  qed
qed

lemma closes_closed_span:
  assumes "closes cs"
  shows "closed_span (CHR ''{'' # cs)"
proof -
  from assms have n: "net cs = - 1" and p: "\<forall>k < length cs. 0 \<le> net (take k cs)"
    by (auto simp: closes_def)
  from n have ne: "cs \<noteq> []" by auto
  have "scan_braces 1 0 1 cs = Some (1 + length cs - 1)"
  proof (rule scan_braces_closes)
    show "(0::nat) < 1" by simp
    show "cs \<noteq> []" by (rule ne)
    show "1 + net cs = 0" using n by simp
    show "\<forall>k. k < length cs \<longrightarrow> 0 < 1 + net (take k cs)" using p by fastforce
  qed
  then show ?thesis by (simp add: closed_span_def find_end_def)
qed

lemma object_reads_close:
  assumes "parse_value (CHR ''{'' # cs) = Some (v, r)" and "no_brace_in_strings False cs"
  shows "reads_close cs r"
proof (cases "skip_ws cs")
  case Nil
  with assms(1) show ?thesis by simp
next
  case (Cons d rest)
  show ?thesis
  proof (cases "d = CHR ''}''")
    case True
    with assms(1) Cons have r: "r = rest" by simp
    have "reads cs (CHR ''}'' # rest)"
      using eats_skip_ws [of cs] Cons True by (auto intro: eats_reads)
    then show ?thesis unfolding r using reads_close_brace by (rule reads_close_trans)
  next
    case False
    with assms(1) Cons obtain kvs where "parse_members cs = Some (kvs, r)"
      by (auto split: option.splits)
    then show ?thesis using assms(2) by (rule parse_reads(3))
  qed
qed

lemma object_text_closed_span:
  assumes "parse_value (CHR ''{'' # cs) = Some (v, [])"
    and "no_brace_in_strings False (CHR ''{'' # cs)"
  shows "object_value (CHR ''{'' # cs) v"
proof -
  from assms(2) have "no_brace_in_strings False cs" by simp
  from object_reads_close [OF assms(1) this] have "closes cs" by (simp add: reads_close_def)
  then have "closed_span (CHR ''{'' # cs)" by (rule closes_closed_span)
  moreover have "skip_ws [] = []" "skip_ws (CHR ''{'' # cs) = CHR ''{'' # cs"
    by (simp_all add: skip_ws_def is_json_ws_def)
  then have "JSON_parse (CHR ''{'' # cs) = Some v"
    using assms(1) by (simp add: JSON_parse_def del: parse_value.simps)
  ultimately show ?thesis by (simp add: object_value_def)
qed

subsection \<open>Completeness (claim C1)\<close>

text \<open>
  C1, as the spec states it, fails: here the stream is one well-formed object, delivered
  whole, whose string value is a closing brace. The scanner takes that brace for the end
  of the object, the span cut there does not parse, no other \<open>{\<close> follows, and the
  decoder yields nothing where the claim promises one value.
\<close>

theorem C1_brace_in_string_counterexample:
  \<open>JSON_parse ''{"a":"}"}'' = Some (JObject [(js_key ''a'', JString (js_key ''}''))])
   \<and> parseJsonStream [Some ''{"a":"}"}''] = []\<close>
  by code_simp

text \<open>
  C1, amended: for every concatenation of objects each of which is a closed span (the
  scanner's brace count first returns to zero at the object's last character) and
  parses, and for every way of splitting that text into chunks, chunks without a string
  text included, the decoder yields exactly the values of the objects, in order. By
  \<open>object_text_closed_span\<close> this covers every object that holds no brace inside a
  string literal.
\<close>

theorem C1_decoder_complete_for_closed_objects:
  assumes "list_all2 object_value objs vs" and "stream_text chunks = concat objs"
  shows "parseJsonStream chunks = vs"
  using decode_objects_then_partial [OF assms(1) inert_Nil, of chunks] assms(2)
  by (simp add: parseJsonStream_def)

theorem C1_decoder_complete_for_closed_objects_witness:
  \<open>list_all2 object_value [''{"a":1}'', ''{"b":"x y"}'']
       [JObject [(js_key ''a'', JNumber False 1 0)], JObject [(js_key ''b'', JString (js_key ''x y''))]]
   \<and> stream_text [Some ''{"a":1}{"b":"x'', None, Some '' y"}''] = concat [''{"a":1}'', ''{"b":"x y"}'']
   \<and> parseJsonStream [Some ''{"a":1}{"b":"x'', None, Some '' y"}'']
       = [JObject [(js_key ''a'', JNumber False 1 0)], JObject [(js_key ''b'', JString (js_key ''x y''))]]\<close>
proof -
  have 1: \<open>object_value ''{"a":1}'' (JObject [(js_key ''a'', JNumber False 1 0)])\<close>
    unfolding object_value_def closed_span_def by code_simp
  have 2: \<open>object_value ''{"b":"x y"}'' (JObject [(js_key ''b'', JString (js_key ''x y''))])\<close>
    unfolding object_value_def closed_span_def by code_simp
  from 1 2 have h1: \<open>list_all2 object_value [''{"a":1}'', ''{"b":"x y"}'']
       [JObject [(js_key ''a'', JNumber False 1 0)], JObject [(js_key ''b'', JString (js_key ''x y''))]]\<close>
    by simp
  have h2: \<open>stream_text [Some ''{"a":1}{"b":"x'', None, Some '' y"}'']
              = concat [''{"a":1}'', ''{"b":"x y"}'']\<close>
    by (simp add: stream_text_def)
  from C1_decoder_complete_for_closed_objects [OF h1 h2] h1 h2 show ?thesis by blast
qed

subsection \<open>The decoder reads the stream as one text\<close>

text \<open>
  \<open>scan buffer\<close> is the \<open>while\<close> loop entered as the program enters it after a chunk,
  with \<open>start = buffer.indexOf('{')\<close>.
\<close>

definition scan :: "string \<Rightarrow> json list \<times> string" where
  "scan buffer = drain buffer (indexOf buffer CHR ''{'' 0)"

text \<open>
  \<open>skipped m\<close>: the scanner, run over the text \<open>m\<close> alone, closes every span it starts
  from, and none of the spans it cuts parses. This is the loop above with its two other
  exits turned into failure: a \<open>{\<close> that is not matched inside \<open>m\<close>, and a span that
  parses.
\<close>

function skipped :: "string \<Rightarrow> bool" where
  "skipped m =
     (case indexOf m CHR ''{'' 0 of
        None \<Rightarrow> True
      | Some start \<Rightarrow>
          (case find_end m start of
             None \<Rightarrow> False
           | Some e \<Rightarrow> JSON_parse (substring m start (e + 1)) = None
                        \<and> skipped (drop (start + 1) m)))"
  by pat_completeness auto
termination
  by (relation "measure length") (auto dest!: indexOf_bounds)

text \<open>
  What the scanner finds in a buffer it finds again when text is appended to the buffer.
\<close>

lemma indexOf_extend:
  "indexOf b ch k = Some s \<Longrightarrow> indexOf (b @ t) ch k = Some s"
proof -
  have "index_from ch i u = Some s \<Longrightarrow> index_from ch i (u @ t) = Some s" for i u
    by (induction u arbitrary: i) (auto split: if_splits)
  moreover assume a: "indexOf b ch k = Some s"
  moreover from indexOf_bounds [OF a] have "k \<le> length b" by simp
  ultimately show ?thesis by (simp add: indexOf_def)
qed

lemma find_end_extend_from:
  "find_end b s = Some e \<Longrightarrow> find_end (b @ t) s = Some e"
proof -
  assume a: "find_end b s = Some e"
  from find_end_bounds [OF a] have "s \<le> length b" by simp
  with a show ?thesis by (simp add: find_end_def scan_braces_extend)
qed

lemma substring_extend:
  "e < length b \<Longrightarrow> substring (b @ t) s (e + 1) = substring b s (e + 1)"
  by (simp add: substring_def)

lemma drain_fail_step:
  "find_end b s = Some e \<Longrightarrow> JSON_parse (substring b s (e + 1)) = None \<Longrightarrow>
   drain b (Some s) = drain b (indexOf b CHR ''{'' (s + 1))"
  by simp

lemma drain_ok_step:
  "find_end b s = Some e \<Longrightarrow> JSON_parse (substring b s (e + 1)) = Some v \<Longrightarrow>
   drain b (Some s) = (v # fst (scan (drop (e + 1) b)), snd (scan (drop (e + 1) b)))"
  by (simp add: scan_def case_prod_beta Let_def)

lemma drain_open_step:
  "find_end b s = None \<Longrightarrow> drain b (Some s) = ([], b)"
  by simp

text \<open>
  After a chunk the loop starts again from the first \<open>{\<close> of the buffer. \<open>rescans b k\<close>
  says that, whatever text is appended to \<open>b\<close>, starting from the first \<open>{\<close> at or after
  index \<open>k\<close> gives the same as starting over: the spans before \<open>k\<close> fail again. With it,
  a buffer can be decoded in two parts (\<open>scan_append\<close>), and so the decoder yields for a
  stream what one run of the loop yields for the whole text (\<open>parseJsonStream_scan\<close>).
\<close>

definition rescans :: "string \<Rightarrow> nat \<Rightarrow> bool" where
  "rescans b k = (\<forall>t. scan (b @ t) = drain (b @ t) (indexOf (b @ t) CHR ''{'' k))"

lemma rescans_0: "rescans b 0"
  by (simp add: rescans_def scan_def)

lemma drain_append:
  "indexOf b CHR ''{'' k = start \<Longrightarrow> rescans b k \<Longrightarrow>
   drain (b @ t) (indexOf (b @ t) CHR ''{'' k)
     = (fst (drain b start) @ fst (scan (snd (drain b start) @ t)),
        snd (scan (snd (drain b start) @ t)))"
proof (induction b start arbitrary: k rule: drain.induct)
  case (1 buffer)
  from "1.prems"(2) have "drain (buffer @ t) (indexOf (buffer @ t) CHR ''{'' k) = scan (buffer @ t)"
    by (simp add: rescans_def)
  then show ?case by simp
next
  case (2 buffer start)
  note st = "2.prems"(1)
  have whole: "drain (buffer @ t) (indexOf (buffer @ t) CHR ''{'' k) = scan (buffer @ t)"
    using "2.prems"(2) by (simp add: rescans_def)
  show ?case
  proof (cases "find_end buffer start")
    case None
    then have "drain buffer (Some start) = ([], buffer)" by (rule drain_open_step)
    with whole show ?thesis by simp
  next
    case (Some e)
    note fe = Some
    from find_end_bounds [OF fe] have b: "start \<le> e" "e < length buffer" by auto
    have st': "indexOf (buffer @ u) CHR ''{'' k = Some start" for u
      using st by (rule indexOf_extend)
    have fe': "find_end (buffer @ u) start = Some e" for u
      using fe by (rule find_end_extend_from)
    have sub': "substring (buffer @ u) start (e + 1) = substring buffer start (e + 1)" for u
      using b(2) by (rule substring_extend)
    show ?thesis
    proof (cases "JSON_parse (substring buffer start (e + 1))")
      case None
      have nxt: "drain (buffer @ u) (indexOf (buffer @ u) CHR ''{'' k)
                   = drain (buffer @ u) (indexOf (buffer @ u) CHR ''{'' (start + 1))" for u
        unfolding st' using fe' by (rule drain_fail_step) (simp only: sub' None)
      have r: "rescans buffer (start + 1)"
        unfolding rescans_def
      proof
        fix u
        from "2.prems"(2) have "scan (buffer @ u) = drain (buffer @ u) (indexOf (buffer @ u) CHR ''{'' k)"
          by (simp add: rescans_def)
        with nxt [of u]
        show "scan (buffer @ u) = drain (buffer @ u) (indexOf (buffer @ u) CHR ''{'' (start + 1))"
          by simp
      qed
      have here: "drain buffer (Some start) = drain buffer (indexOf buffer CHR ''{'' (start + 1))"
        using fe None by (rule drain_fail_step)
      show ?thesis
        unfolding nxt here using "2.IH"(1) [OF fe None refl r] .
    next
      case (Some v)
      let ?b' = "drop (e + 1) buffer"
      have d: "drop (e + 1) (buffer @ t) = ?b' @ t" using b by simp
      have ext: "drain (buffer @ t) (indexOf (buffer @ t) CHR ''{'' k)
              = (v # fst (scan (?b' @ t)), snd (scan (?b' @ t)))"
        unfolding st' d [symmetric] using fe' by (rule drain_ok_step) (simp only: sub' Some)
      have here: "drain buffer (Some start) = (v # fst (scan ?b'), snd (scan ?b'))"
        using fe Some by (rule drain_ok_step)
      have "scan (?b' @ t)
             = (fst (scan ?b') @ fst (scan (snd (scan ?b') @ t)), snd (scan (snd (scan ?b') @ t)))"
        using "2.IH"(2) [OF fe Some refl refl rescans_0] by (simp only: scan_def)
      then show ?thesis unfolding ext here by simp
    qed
  qed
qed

lemma scan_append:
  "scan (b @ t) = (fst (scan b) @ fst (scan (snd (scan b) @ t)), snd (scan (snd (scan b) @ t)))"
  using drain_append [OF refl rescans_0, of b t] by (simp add: scan_def)

lemma scan_idem: "scan (snd (scan b)) = ([], snd (scan b))"
  using scan_append [of b "[]"] by (cases "scan (snd (scan b))") (simp add: prod_eq_iff)

lemma stream_scan:
  "scan b = ([], b) \<Longrightarrow> parseJsonStream_from b chunks = scan (b @ stream_text chunks)"
proof (induction chunks arbitrary: b)
  case Nil
  then show ?case by (simp add: stream_text_def)
next
  case (Cons chunk rest)
  show ?case
  proof (cases chunk)
    case None
    with Cons show ?thesis by (simp add: stream_text_def)
  next
    case (Some t)
    let ?b2 = "snd (scan (b @ t))"
    have "parseJsonStream_from ?b2 rest = scan (?b2 @ stream_text rest)"
      by (rule Cons.IH) (rule scan_idem)
    moreover have "scan ((b @ t) @ stream_text rest)
        = (fst (scan (b @ t)) @ fst (scan (?b2 @ stream_text rest)),
           snd (scan (?b2 @ stream_text rest)))"
      by (rule scan_append)
    ultimately show ?thesis using Some
      by (simp add: stream_text_def scan_def case_prod_beta Let_def)
  qed
qed

lemma parseJsonStream_scan: "parseJsonStream chunks = fst (scan (stream_text chunks))"
  using stream_scan [of "[]" chunks] by (simp add: parseJsonStream_def scan_def indexOf_def)


text \<open>
  The values do not depend on text before the index the loop starts from. So text without
  \<open>{\<close> is passed over, a closed span that parses is yielded and decoding goes on after
  it, and a closed span that does not parse is left by its first character only: decoding
  goes on right after its \<open>{\<close>.
\<close>

lemma drain_shift:
  "fst (drain (p @ b) (map_option (\<lambda>n. n + length p) start)) = fst (drain b start)"
proof (induction b start rule: drain.induct)
  case (1 buffer)
  show ?case by simp
next
  case (2 buffer start)
  have fe: "find_end (p @ buffer) (start + length p)
              = map_option (\<lambda>n. n + length p) (find_end buffer start)"
    using find_end_append_shift [of p buffer start] by (simp add: add.commute)
  show ?case
  proof (cases "find_end buffer start")
    case None
    with fe have "find_end (p @ buffer) (start + length p) = None" by simp
    then have "drain (p @ buffer) (Some (start + length p)) = ([], p @ buffer)"
      by (rule drain_open_step)
    moreover from None have "drain buffer (Some start) = ([], buffer)" by (rule drain_open_step)
    ultimately show ?thesis by simp
  next
    case (Some e)
    note fb = Some
    from find_end_bounds [OF fb] have b: "start \<le> e" "e < length buffer" by auto
    from fe fb have fe': "find_end (p @ buffer) (start + length p) = Some (e + length p)" by simp
    have sub: "substring (p @ buffer) (start + length p) (e + length p + 1)
                 = substring buffer start (e + 1)"
      using b by (simp add: substring_def)
    show ?thesis
    proof (cases "JSON_parse (substring buffer start (e + 1))")
      case None
      have l: "drain (p @ buffer) (Some (start + length p))
                 = drain (p @ buffer) (indexOf (p @ buffer) CHR ''{'' (start + length p + 1))"
        using fe' by (rule drain_fail_step) (simp only: sub None)
      have r: "drain buffer (Some start) = drain buffer (indexOf buffer CHR ''{'' (start + 1))"
        using fb None by (rule drain_fail_step)
      have ix: "indexOf (p @ buffer) CHR ''{'' (start + length p + 1)
                  = map_option (\<lambda>n. n + length p) (indexOf buffer CHR ''{'' (start + 1))"
        using indexOf_append_shift [of p buffer "CHR ''{''" "start + 1"] by (simp add: ac_simps)
      have "fst (drain (p @ buffer) (Some (start + length p)))
              = fst (drain buffer (indexOf buffer CHR ''{'' (start + 1)))"
        unfolding l ix using "2.IH"(1) [OF fb None] .
      with r show ?thesis by simp
    next
      case (Some v)
      have d: "drop (e + length p + 1) (p @ buffer) = drop (e + 1) buffer" by simp
      have l: "drain (p @ buffer) (Some (start + length p))
                 = (v # fst (scan (drop (e + length p + 1) (p @ buffer))),
                    snd (scan (drop (e + length p + 1) (p @ buffer))))"
        using fe' by (rule drain_ok_step) (simp only: sub Some)
      have r: "drain buffer (Some start)
                 = (v # fst (scan (drop (e + 1) buffer)), snd (scan (drop (e + 1) buffer)))"
        using fb Some by (rule drain_ok_step)
      show ?thesis using l r unfolding d by simp
    qed
  qed
qed

lemma scan_skip_plain:
  assumes "CHR ''{'' \<notin> set pre"
  shows "fst (scan (pre @ x)) = fst (scan x)"
  unfolding scan_def indexOf_skip [OF assms] by (rule drain_shift)

lemma scan_yield:
  assumes cs: "closed_span s" and pv: "JSON_parse s = Some v"
  shows "fst (scan (s @ x)) = v # fst (scan x)"
proof -
  from cs obtain t where t: "s = CHR ''{'' # t" using closed_span_Cons by blast
  then have ix: "indexOf (s @ x) CHR ''{'' 0 = Some 0" by (simp add: indexOf_hd)
  from drain_closed_span_step [OF cs, of "[]" x]
  have fe: "find_end (s @ x) 0 = Some (length s - 1)"
    and sub: "substring (s @ x) 0 (length s - 1 + 1) = s"
    and dr: "drop (length s - 1 + 1) (s @ x) = x" by simp_all
  have "drain (s @ x) (Some 0)
          = (v # fst (scan (drop (length s - 1 + 1) (s @ x))),
             snd (scan (drop (length s - 1 + 1) (s @ x))))"
    using fe by (rule drain_ok_step) (simp only: sub pv)
  then show ?thesis unfolding scan_def ix dr by simp
qed

lemma scan_skip_span:
  assumes cs: "closed_span s" and pv: "JSON_parse s = None"
  shows "fst (scan (s @ x)) = fst (scan (tl s @ x))"
proof -
  from cs obtain t where t: "s = CHR ''{'' # t" using closed_span_Cons by blast
  then have ix: "indexOf (s @ x) CHR ''{'' 0 = Some 0" by (simp add: indexOf_hd)
  from drain_closed_span_step [OF cs, of "[]" x]
  have fe: "find_end (s @ x) 0 = Some (length s - 1)"
    and sub: "substring (s @ x) 0 (length s - 1 + 1) = s" by simp_all
  have st: "drain (s @ x) (Some 0) = drain (s @ x) (indexOf (s @ x) CHR ''{'' (0 + 1))"
    using fe by (rule drain_fail_step) (simp only: sub pv)
  have e1: "s @ x = [CHR ''{''] @ (t @ x)" using t by simp
  have "indexOf ([CHR ''{''] @ (t @ x)) CHR ''{'' (length [CHR ''{''] + 0)
          = map_option (\<lambda>n. n + length [CHR ''{'']) (indexOf (t @ x) CHR ''{'' 0)"
    by (rule indexOf_append_shift)
  then have nx: "indexOf ([CHR ''{''] @ (t @ x)) CHR ''{'' (0 + 1)
                   = map_option (\<lambda>n. n + length [CHR ''{'']) (indexOf (t @ x) CHR ''{'' 0)"
    by simp
  have "fst (drain (s @ x) (Some 0))
          = fst (drain ([CHR ''{''] @ (t @ x)) (indexOf ([CHR ''{''] @ (t @ x)) CHR ''{'' (0 + 1)))"
    using st by (simp only: e1)
  also have "\<dots> = fst (drain (t @ x) (indexOf (t @ x) CHR ''{'' 0))"
    unfolding nx by (rule drain_shift)
  finally have "fst (scan (s @ x)) = fst (scan (t @ x))"
    unfolding scan_def ix .
  with t show ?thesis by simp
qed

lemma scan_skipped:
  "skipped m \<Longrightarrow> fst (scan (m @ x)) = fst (scan x)"
proof (induction m rule: skipped.induct)
  case (1 m)
  show ?case
  proof (cases "indexOf m CHR ''{'' 0")
    case None
    then have "CHR ''{'' \<notin> set m" by (simp add: indexOf_None_iff)
    then show ?thesis by (rule scan_skip_plain)
  next
    case (Some start)
    note ix = Some
    from indexOf_Some_nth [OF ix] have sl: "start < length m" and hd: "m ! start = CHR ''{''"
      by auto
    from "1.prems" ix obtain e where fe: "find_end m start = Some e"
      by (subst (asm) skipped.simps) (auto split: option.splits)
    with "1.prems" ix have pv: "JSON_parse (substring m start (e + 1)) = None"
      and sk: "skipped (drop (start + 1) m)"
      by (subst (asm) skipped.simps, simp)+
    from find_end_bounds [OF fe] have b: "start \<le> e" "e < length m" by auto
    let ?pre = "take start m" and ?s = "substring m start (e + 1)" and ?rest = "drop (e + 1) m"
    have m: "m = ?pre @ ?s @ ?rest" using b by (rule split_at_span)
    have cs: "closed_span ?s" using fe hd by (rule closed_span_substring)
    have nb: "CHR ''{'' \<notin> set ?pre"
    proof
      assume "CHR ''{'' \<in> set ?pre"
      then obtain i where i: "i < start" "m ! i = CHR ''{''"
        using sl by (auto simp: in_set_conv_nth)
      have "index_from ch j u = Some n \<Longrightarrow> \<forall>i < n - j. u ! i \<noteq> ch" for ch j u n
      proof (induction u arbitrary: j)
        case Nil
        then show ?case by simp
      next
        case (Cons c u)
        show ?case
        proof (cases "c = ch")
          case True
          with Cons.prems show ?thesis by simp
        next
          case False
          with Cons.prems have r: "index_from ch (Suc j) u = Some n" by simp
          from Cons.IH [OF r] index_from_bounds [OF r] False show ?thesis
            by (auto simp: nth_Cons' Suc_diff_le)
        qed
      qed
      from this [of "CHR ''{''" 0 m start] ix i show False by (simp add: indexOf_def)
    qed
    have tl: "tl ?s @ ?rest = drop (start + 1) m"
    proof -
      have "?s @ ?rest = drop start m" using m by (metis append_take_drop_id same_append_eq)
      moreover have "?s \<noteq> []" using cs by (simp add: closed_span_def)
      ultimately have "tl ?s @ ?rest = tl (drop start m)" by (metis tl_append2)
      then show ?thesis by (simp add: drop_Suc tl_drop)
    qed
    have "fst (scan (m @ x)) = fst (scan (?pre @ (?s @ ?rest @ x)))"
      using m by (metis append.assoc)
    also have "\<dots> = fst (scan (?s @ ?rest @ x))" using nb by (rule scan_skip_plain)
    also have "\<dots> = fst (scan (tl ?s @ ?rest @ x))" using cs pv by (rule scan_skip_span)
    also have "\<dots> = fst (scan (drop (start + 1) m @ x))" using tl by (metis append.assoc)
    also have "\<dots> = fst (scan x)" using "1.IH" [OF ix fe sk] by simp
    finally show ?thesis .
  qed
qed

lemma scan_Nil: "scan [] = ([], [])"
  by (simp add: scan_def indexOf_def)

lemma skipped_plain: "CHR ''{'' \<notin> set m \<Longrightarrow> skipped m"
  using indexOf_None_iff [of m "CHR ''{''"] by (subst skipped.simps) simp

lemma skipped_span:
  assumes "closed_span s" and "JSON_parse s = None" and "skipped (tl s @ rest)"
  shows "skipped (s @ rest)"
proof -
  from assms(1) obtain t where t: "s = CHR ''{'' # t" using closed_span_Cons by blast
  then have ix: "indexOf (s @ rest) CHR ''{'' 0 = Some 0" by (simp add: indexOf_hd)
  from drain_closed_span_step [OF assms(1), of "[]" rest]
  have fe: "find_end (s @ rest) 0 = Some (length s - 1)"
    and sub: "substring (s @ rest) 0 (length s - 1 + 1) = s" by simp_all
  have dr: "drop (0 + 1) (s @ rest) = tl s @ rest" using t by simp
  show ?thesis
    by (subst skipped.simps) (simp only: ix fe sub dr option.case assms simp_thms)
qed

subsection \<open>Resilience (claim C6)\<close>

text \<open>
  C6, as the spec states it, fails: a malformed object that lacks its closing brace,
  between two well-formed objects, stops the decoder. It yields the first object and
  then waits for a brace that closes the malformed span; the second object is never
  yielded.
\<close>

theorem C6_unclosed_span_blocks_counterexample:
  \<open>JSON_parse ''{"a":1}'' = Some (JObject [(js_key ''a'', JNumber False 1 0)])
   \<and> JSON_parse ''{"x":'' = None
   \<and> JSON_parse ''{"b":2}'' = Some (JObject [(js_key ''b'', JNumber False 2 0)])
   \<and> parseJsonStream [Some ''{"a":1}'', Some ''{"x":'', Some ''{"b":2}'']
       = [JObject [(js_key ''a'', JNumber False 1 0)]]\<close>
  by code_simp

text \<open>
  C6, amended. The skip rule: when the scanner closes a span that does not parse, the
  decoder goes on from the character after the span's opening brace; the values it yields
  for a stream whose text is complete objects, text without \<open>{\<close>, such a span and a rest
  are the objects' values followed by the values it yields for the span without its first
  character and the rest. This holds for every way of splitting the stream into chunks.

  Resilience: let the text \<open>m\<close> stand between two objects that are closed spans and parse,
  and let \<open>m\<close> be skipped: every \<open>{\<close> the scanner starts from in \<open>m\<close> is matched inside
  \<open>m\<close>, and no span it cuts there parses. Then for every way of splitting the stream into
  chunks the decoder yields exactly the two objects' values, in order. Text without \<open>{\<close>
  is skipped, and so is a closed span that does not parse, followed by any text, when what
  follows its opening brace is skipped; this covers an object with a closing brace inside
  a string, invalid spans nested in one another, and a span followed by other text. A \<open>{\<close>
  that nothing matches is not skipped: it blocks all that follows, as above.
\<close>

theorem C6_malformed_span_skipped:
  "(object_value o1 v1 \<and> object_value o2 v2 \<and> skipped m \<and> stream_text chunks = o1 @ m @ o2
      \<longrightarrow> parseJsonStream chunks = [v1, v2])
   \<and> (list_all2 object_value objs vs \<and> CHR ''{'' \<notin> set pre \<and> closed_span s \<and> JSON_parse s = None
        \<and> stream_text chunks = concat objs @ pre @ s @ rest
        \<and> stream_text chunks' = tl s @ rest
      \<longrightarrow> parseJsonStream chunks = vs @ parseJsonStream chunks')
   \<and> (CHR ''{'' \<notin> set m \<longrightarrow> skipped m)
   \<and> (closed_span s \<and> JSON_parse s = None \<and> skipped (tl s @ rest) \<longrightarrow> skipped (s @ rest))"
proof (intro conjI impI)
  assume a: "object_value o1 v1 \<and> object_value o2 v2 \<and> skipped m \<and> stream_text chunks = o1 @ m @ o2"
  then have "fst (scan (o1 @ m @ o2)) = v1 # fst (scan (m @ o2))"
    by (intro scan_yield) (simp_all add: object_value_def)
  also have "fst (scan (m @ o2)) = fst (scan o2)" using a by (intro scan_skipped) simp
  also have "fst (scan o2) = [v2]"
    using a scan_yield [of o2 v2 "[]"] by (simp add: object_value_def scan_Nil)
  finally show "parseJsonStream chunks = [v1, v2]" using a by (simp add: parseJsonStream_scan)
next
  assume a: "list_all2 object_value objs vs \<and> CHR ''{'' \<notin> set pre \<and> closed_span s \<and> JSON_parse s = None
        \<and> stream_text chunks = concat objs @ pre @ s @ rest
        \<and> stream_text chunks' = tl s @ rest"
  then have objs: "list_all2 object_value objs vs" by simp
  have "fst (scan (concat objs @ x)) = vs @ fst (scan x)" for x
    using objs by (induction rule: list_all2_induct) (simp_all add: scan_yield object_value_def)
  then have "fst (scan (concat objs @ pre @ s @ rest)) = vs @ fst (scan (pre @ s @ rest))" .
  also have "fst (scan (pre @ s @ rest)) = fst (scan (s @ rest))" using a by (intro scan_skip_plain) simp
  also have "\<dots> = fst (scan (tl s @ rest))" using a by (intro scan_skip_span) simp_all
  finally show "parseJsonStream chunks = vs @ parseJsonStream chunks'"
    using a by (simp add: parseJsonStream_scan)
next
  assume "CHR ''{'' \<notin> set m" then show "skipped m" by (rule skipped_plain)
next
  assume "closed_span s \<and> JSON_parse s = None \<and> skipped (tl s @ rest)"
  then show "skipped (s @ rest)" using skipped_span by blast
qed

theorem C6_malformed_span_skipped_witness:
  \<open>object_value ''{"a":1}'' (JObject [(js_key ''a'', JNumber False 1 0)])
   \<and> object_value ''{"b":2}'' (JObject [(js_key ''b'', JNumber False 2 0)])
   \<and> closed_span ''{"s":"}'' \<and> JSON_parse ''{"s":"}'' = None
   \<and> closed_span ''{y}'' \<and> JSON_parse ''{y}'' = None
   \<and> skipped ''y}} ,'' \<and> skipped (''{y}'' @ ''} ,'')
   \<and> skipped ''{"s":"}"} {x{y}} ,''
   \<and> parseJsonStream [Some ''{"a":1}{"s":"}'', None, Some ''"} {x{'', Some ''y}} ,{"b":2}'']
       = [JObject [(js_key ''a'', JNumber False 1 0)], JObject [(js_key ''b'', JNumber False 2 0)]]
   \<and> parseJsonStream [Some ''{"a":1}'', Some '' {"s":"}"}{"b":2}'']
       = [JObject [(js_key ''a'', JNumber False 1 0)]] @ parseJsonStream [Some ''"s":"}"}{"b":2}'']\<close>
proof -
  have 1: \<open>object_value ''{"a":1}'' (JObject [(js_key ''a'', JNumber False 1 0)])\<close>
    unfolding object_value_def closed_span_def by code_simp
  have 2: \<open>object_value ''{"b":2}'' (JObject [(js_key ''b'', JNumber False 2 0)])\<close>
    unfolding object_value_def closed_span_def by code_simp
  have s1: \<open>closed_span ''{"s":"}'' \<and> JSON_parse ''{"s":"}'' = None\<close>
    unfolding closed_span_def by code_simp
  have s3: \<open>closed_span ''{y}'' \<and> JSON_parse ''{y}'' = None\<close>
    unfolding closed_span_def by code_simp
  have p1: \<open>CHR ''{'' \<notin> set ''y}} ,''\<close> by simp
  have p3: \<open>CHR ''{'' \<notin> set '' ''\<close> by simp
  note rules = C6_malformed_span_skipped
  from rules [where m = \<open>''y}} ,''\<close>] p1
  have k1: \<open>skipped ''y}} ,''\<close> by blast
  from rules [where s = \<open>''{y}''\<close> and rest = \<open>''} ,''\<close>] s3 k1
  have k2: \<open>skipped (''{y}'' @ ''} ,'')\<close> by simp
  have k: \<open>skipped ''{"s":"}"} {x{y}} ,''\<close> by code_simp
  have t1: \<open>stream_text [Some ''{"a":1}{"s":"}'', None, Some ''"} {x{'', Some ''y}} ,{"b":2}'']
             = ''{"a":1}'' @ ''{"s":"}"} {x{y}} ,'' @ ''{"b":2}''\<close>
    by (simp add: stream_text_def)
  from rules [where ?o1.0 = \<open>''{"a":1}''\<close> and ?o2.0 = \<open>''{"b":2}''\<close>
                and m = \<open>''{"s":"}"} {x{y}} ,''\<close>
                and chunks = \<open>[Some ''{"a":1}{"s":"}'', None, Some ''"} {x{'', Some ''y}} ,{"b":2}'']\<close>
                and ?v1.0 = \<open>JObject [(js_key ''a'', JNumber False 1 0)]\<close>
                and ?v2.0 = \<open>JObject [(js_key ''b'', JNumber False 2 0)]\<close>] 1 2 k t1
  have r1: \<open>parseJsonStream [Some ''{"a":1}{"s":"}'', None, Some ''"} {x{'', Some ''y}} ,{"b":2}'']
       = [JObject [(js_key ''a'', JNumber False 1 0)], JObject [(js_key ''b'', JNumber False 2 0)]]\<close>
    by blast
  have o: \<open>list_all2 object_value [''{"a":1}''] [JObject [(js_key ''a'', JNumber False 1 0)]]\<close>
    using 1 by simp
  have t2: \<open>stream_text [Some ''{"a":1}'', Some '' {"s":"}"}{"b":2}'']
             = concat [''{"a":1}''] @ '' '' @ ''{"s":"}'' @ ''"}{"b":2}''\<close>
    by (simp add: stream_text_def)
  have t3: \<open>stream_text [Some ''"s":"}"}{"b":2}''] = tl ''{"s":"}'' @ ''"}{"b":2}''\<close>
    by (simp add: stream_text_def)
  from rules [where objs = \<open>[''{"a":1}'']\<close> and vs = \<open>[JObject [(js_key ''a'', JNumber False 1 0)]]\<close>
                and pre = \<open>'' ''\<close> and s = \<open>''{"s":"}''\<close> and rest = \<open>''"}{"b":2}''\<close>
                and chunks = \<open>[Some ''{"a":1}'', Some '' {"s":"}"}{"b":2}'']\<close>
                and chunks' = \<open>[Some ''"s":"}"}{"b":2}'']\<close>] o p3 s1 t2 t3
  have r2: \<open>parseJsonStream [Some ''{"a":1}'', Some '' {"s":"}"}{"b":2}'']
       = [JObject [(js_key ''a'', JNumber False 1 0)]] @ parseJsonStream [Some ''"s":"}"}{"b":2}'']\<close>
    by blast
  from 1 2 s1 s3 k1 k2 k r1 r2 show ?thesis by blast
qed

subsection \<open>No value from the trailing buffer (claim C7)\<close>

text \<open>
  C7: for every stream, the text delivered is a consumed part followed by the buffer
  that is held when the stream ends; the values yielded are, in order, the parses of
  disjoint closed spans of the consumed part, so none of them comes from the buffer that
  is dropped. In particular, when the stream is a concatenation of closed, parsing
  objects followed by a proper prefix of a closed span (an object cut short), the decoder
  yields exactly the values of the complete objects, and the cut object is what the
  buffer holds at the end.
\<close>

theorem C7_no_value_from_trailing_buffer:
  "(\<exists>pieces. stream_text chunks = consumed pieces @ snd (parseJsonStream_from [] chunks)
          \<and> list_all2 span_value pieces (parseJsonStream chunks))
   \<and> (list_all2 object_value objs vs \<and> closed_span obj \<and> strict_prefix partial obj
        \<and> stream_text chunks = concat objs @ partial
      \<longrightarrow> parseJsonStream chunks = vs \<and> snd (parseJsonStream_from [] chunks) = partial)"
proof (intro conjI impI)
  show "\<exists>pieces. stream_text chunks = consumed pieces @ snd (parseJsonStream_from [] chunks)
          \<and> list_all2 span_value pieces (parseJsonStream chunks)"
    using stream_pieces [of "[]" chunks] by (simp add: parseJsonStream_def)
next
  assume a: "list_all2 object_value objs vs \<and> closed_span obj \<and> strict_prefix partial obj
        \<and> stream_text chunks = concat objs @ partial"
  then have "inert partial" using inert_strict_prefix_closed by blast
  with a have "parseJsonStream_from [] chunks = (vs, partial)"
    using decode_objects_then_partial by blast
  then show "parseJsonStream chunks = vs" "snd (parseJsonStream_from [] chunks) = partial"
    by (simp_all add: parseJsonStream_def)
qed

theorem C7_no_value_from_trailing_buffer_witness:
  \<open>list_all2 object_value [''{"a":1}''] [JObject [(js_key ''a'', JNumber False 1 0)]]
   \<and> closed_span ''{"b":{"c":2}}'' \<and> strict_prefix ''{"b":{"c":2}'' ''{"b":{"c":2}}''
   \<and> stream_text [Some ''{"a":'', Some ''1}{"b":{"c"'', Some '':2}''] = concat [''{"a":1}''] @ ''{"b":{"c":2}''
   \<and> parseJsonStream [Some ''{"a":'', Some ''1}{"b":{"c"'', Some '':2}'']
       = [JObject [(js_key ''a'', JNumber False 1 0)]]
   \<and> snd (parseJsonStream_from [] [Some ''{"a":'', Some ''1}{"b":{"c"'', Some '':2}'']) = ''{"b":{"c":2}''\<close>
proof -
  have 1: \<open>list_all2 object_value [''{"a":1}''] [JObject [(js_key ''a'', JNumber False 1 0)]]\<close>
    unfolding object_value_def closed_span_def by code_simp
  have 2: \<open>closed_span ''{"b":{"c":2}}''\<close>
    unfolding closed_span_def by code_simp
  have 3: \<open>strict_prefix ''{"b":{"c":2}'' ''{"b":{"c":2}}''\<close>
    by simp
  have 4: \<open>stream_text [Some ''{"a":'', Some ''1}{"b":{"c"'', Some '':2}'']
             = concat [''{"a":1}''] @ ''{"b":{"c":2}''\<close>
    by (simp add: stream_text_def)
  from C7_no_value_from_trailing_buffer
         [of \<open>[Some ''{"a":'', Some ''1}{"b":{"c"'', Some '':2}'']\<close>
             \<open>[''{"a":1}'']\<close> \<open>[JObject [(js_key ''a'', JNumber False 1 0)]]\<close>
             \<open>''{"b":{"c":2}}''\<close> \<open>''{"b":{"c":2}''\<close>] 1 2 3 4
  show ?thesis by blast
qed


section \<open>The variation flow keeps records with a name and a body (claim C10)\<close>

text \<open>
  \<open>has_name_and_html\<close> is the test of the loop: both \<open>variation.name\<close> and
  \<open>variation.html\<close> are truthy. The decoder only yields objects, so reading the two
  properties never raises.
\<close>

definition has_name_and_html :: "json \<Rightarrow> bool" where
  "has_name_and_html v =
     (truthy (get_prop v (js_key ''name'')) \<and> truthy (get_prop v (js_key ''html'')))"

lemma skip_ws_brace: "skip_ws (CHR ''{'' # t) = CHR ''{'' # t"
  by (simp add: skip_ws_def is_json_ws_def)

lemma parse_value_brace_object:
  "parse_value (CHR ''{'' # t) = Some (v, r) \<Longrightarrow> \<exists>kvs. v = JObject kvs"
  by (auto split: list.splits if_splits option.splits)

lemma closed_span_parses_to_object:
  assumes "closed_span s" and "JSON_parse s = Some v"
  shows "\<exists>kvs. v = JObject kvs"
proof -
  from assms(1) obtain t where s: "s = CHR ''{'' # t" using closed_span_Cons by blast
  from assms(2) obtain r where "parse_value (CHR ''{'' # t) = Some (v, r)"
    unfolding JSON_parse_def s skip_ws_brace by (auto split: option.splits if_splits)
  then show ?thesis by (rule parse_value_brace_object)
qed

lemma parseJsonStream_objects:
  "v \<in> set (parseJsonStream chunks) \<Longrightarrow> \<exists>kvs. v = JObject kvs"
proof -
  assume v: "v \<in> set (parseJsonStream chunks)"
  from stream_pieces [of "[]" chunks] obtain pieces
    where "list_all2 span_value pieces (parseJsonStream chunks)"
    by (auto simp: parseJsonStream_def)
  with v obtain piece where "span_value piece v"
    by (metis in_set_conv_nth list_all2_conv_all_nth)
  then show ?thesis
    using closed_span_parses_to_object by (auto simp: span_value_def)
qed

lemma collect_variations_filter:
  "\<forall>v \<in> set vs. v \<noteq> JNull \<Longrightarrow>
   collect_variations prev vs = prev @ filter has_name_and_html vs"
  by (induction vs arbitrary: prev) (auto simp: has_name_and_html_def)


text \<open>
  C10: the result list of the variation flow is the list of decoded values, filtered by
  the test, in order. So a value is in the result only if its \<open>name\<close> and its \<open>html\<close>
  are both truthy; a value that lacks one of the two properties, or whose \<open>name\<close> or
  \<open>html\<close> is the empty string, is not in the result.
\<close>

theorem C10_variations_need_name_and_html:
  "handleGenerateVariations responseStream
     = filter has_name_and_html (parseJsonStream (fst responseStream))
   \<and> (v \<in> set (handleGenerateVariations responseStream) \<longrightarrow>
        truthy (get_prop v (js_key ''name'')) \<and> truthy (get_prop v (js_key ''html'')))
   \<and> (get_prop v (js_key ''name'') = None \<or> get_prop v (js_key ''html'') = None
        \<or> get_prop v (js_key ''name'') = Some (JString [])
        \<or> get_prop v (js_key ''html'') = Some (JString [])
      \<longrightarrow> v \<notin> set (handleGenerateVariations responseStream))"
proof -
  have "\<forall>v \<in> set (parseJsonStream (fst responseStream)). v \<noteq> JNull"
    using parseJsonStream_objects by blast
  then have eq: "handleGenerateVariations responseStream
                   = filter has_name_and_html (parseJsonStream (fst responseStream))"
    by (simp add: handleGenerateVariations_def collect_variations_filter)
  show ?thesis
    unfolding eq by (auto simp: has_name_and_html_def)
qed

theorem C10_variations_need_name_and_html_witness:
  \<open>get_prop (JObject [(js_key ''name'', JString []), (js_key ''html'', JString (js_key ''<p>''))])
      (js_key ''name'') = Some (JString [])
   \<and> JObject [(js_key ''name'', JString []), (js_key ''html'', JString (js_key ''<p>''))]
       \<in> set (parseJsonStream [Some ''{"name":"A","html":"<b>"}{"name":"","ht'',
                                Some ''ml":"<p>"}{"name":"C"}''])
   \<and> JObject [(js_key ''name'', JString []), (js_key ''html'', JString (js_key ''<p>''))]
       \<notin> set (handleGenerateVariations
                 ([Some ''{"name":"A","html":"<b>"}{"name":"","ht'',
                   Some ''ml":"<p>"}{"name":"C"}''], Ended))
   \<and> handleGenerateVariations
         ([Some ''{"name":"A","html":"<b>"}{"name":"","ht'', Some ''ml":"<p>"}{"name":"C"}''], Ended)
       = [JObject [(js_key ''name'', JString (js_key ''A'')), (js_key ''html'', JString (js_key ''<b>''))]]\<close>
proof -
  let ?v = \<open>JObject [(js_key ''name'', JString []), (js_key ''html'', JString (js_key ''<p>''))]\<close>
  let ?rs = \<open>([Some ''{"name":"A","html":"<b>"}{"name":"","ht'',
               Some ''ml":"<p>"}{"name":"C"}''], Ended)\<close>
  have h: "get_prop ?v (js_key ''name'') = Some (JString [])"
    by (simp add: js_key_def)
  have p: \<open>parseJsonStream (fst ?rs)
            = [JObject [(js_key ''name'', JString (js_key ''A'')), (js_key ''html'', JString (js_key ''<b>''))],
               ?v,
               JObject [(js_key ''name'', JString (js_key ''C''))]]\<close>
    by code_simp
  from C10_variations_need_name_and_html [of ?rs ?v] h
  have a: "?v \<notin> set (handleGenerateVariations ?rs)" by blast
  from C10_variations_need_name_and_html [of ?rs ?v]
  have "handleGenerateVariations ?rs = filter has_name_and_html (parseJsonStream (fst ?rs))"
    by blast
  then have b: \<open>handleGenerateVariations ?rs
       = [JObject [(js_key ''name'', JString (js_key ''A'')), (js_key ''html'', JString (js_key ''<b>''))]]\<close>
    unfolding p by (simp add: has_name_and_html_def js_key_def)
  from h p a b show ?thesis by simp
qed


section \<open>The artifact store (claims C3, C8 and C9)\<close>

subsection \<open>Status transitions (claim C3)\<close>

text \<open>The status of the artifact at position \<open>j\<close> of the session at position \<open>i\<close>.\<close>

definition status_at :: "app_state \<Rightarrow> nat \<Rightarrow> nat \<Rightarrow> status" where
  "status_at st i j = status (artifacts (sessions st ! i) ! j)"

lemma updateArtifact_nth:
  "i < length ss \<Longrightarrow>
   updateArtifact sid aid f ss ! i =
     (if session_id (ss ! i) = sid
      then (ss ! i)\<lparr>artifacts := map (\<lambda>art. if artifact_id art = aid then f art else art)
                                    (artifacts (ss ! i))\<rparr>
      else ss ! i)"
  by (simp add: updateArtifact_def)

lemma length_updateArtifact [simp]: "length (updateArtifact sid aid f ss) = length ss"
  by (simp add: updateArtifact_def)

lemma step_positions:
  assumes "i < length (sessions st)"
  shows "i < length (sessions (step st e))
         \<and> length (artifacts (sessions (step st e) ! i)) = length (artifacts (sessions st ! i))"
proof (cases e)
  case (CreateSession sid p a t n)
  with assms show ?thesis by (simp add: nth_append)
next
  case (ApplyStyles sid styles)
  with assms show ?thesis by (simp add: applyStyles_def)
next
  case (StreamUpdate sid aid h)
  with assms show ?thesis by (simp add: streamUpdate_def updateArtifact_nth)
next
  case (Finalize sid aid h)
  with assms show ?thesis by (simp add: finalize_def Let_def updateArtifact_nth)
next
  case (Fail sid aid)
  with assms show ?thesis by (simp add: fail_def updateArtifact_nth)
next
  case (ApplyVariation h)
  with assms show ?thesis
    by (simp add: applyVariation_def map_index_nth split: option.splits)
next
  case (SetFocused f)
  with assms show ?thesis by simp
next
  case (SetCurrent c)
  with assms show ?thesis by simp
qed

lemma step_status:
  assumes "i < length (sessions st)" and "j < length (artifacts (sessions st ! i))"
  shows "status_at (step st e) i j \<in> {status_at st i j, Complete, Error}"
proof (cases e)
  case (CreateSession sid p a t n)
  with assms show ?thesis by (simp add: status_at_def nth_append)
next
  case (ApplyStyles sid styles)
  with assms show ?thesis by (simp add: status_at_def applyStyles_def map_index_nth)
next
  case (StreamUpdate sid aid h)
  with assms show ?thesis by (simp add: status_at_def streamUpdate_def updateArtifact_nth)
next
  case (Finalize sid aid h)
  with assms show ?thesis by (simp add: status_at_def finalize_def Let_def updateArtifact_nth)
next
  case (Fail sid aid)
  with assms show ?thesis by (simp add: status_at_def fail_def updateArtifact_nth)
next
  case (ApplyVariation h)
  with assms show ?thesis
    by (simp add: status_at_def applyVariation_def map_index_nth split: option.splits)
next
  case (SetFocused f)
  with assms show ?thesis by (simp add: status_at_def)
next
  case (SetCurrent c)
  with assms show ?thesis by (simp add: status_at_def)
qed


text \<open>
  C3, as the spec states it, fails: from the initial state, a session is created, the
  task of its first artifact fails (status \<open>error\<close>), the user focuses that artifact and
  applies a variation, and the status is \<open>complete\<close>: a transition from \<open>error\<close> to
  \<open>complete\<close>.
\<close>

theorem C3_error_to_complete_counterexample:
  "status_at (run initial_state
               [CreateSession ''s'' ''p'' [] 0 0, Fail ''s'' ''s_0'', SetFocused (Some 0)]) 0 0 = Error
   \<and> status_at (step (run initial_state
                       [CreateSession ''s'' ''p'' [] 0 0, Fail ''s'' ''s_0'', SetFocused (Some 0)])
                  (ApplyVariation ''<p>v</p>'')) 0 0 = Complete"
  by code_simp

text \<open>
  C3, amended: over every sequence of operations (creating a session, applying styles,
  streaming updates, finalization, failure, applying a variation, navigation) an
  artifact keeps its position, and its status is either what it was or one of
  \<open>complete\<close> and \<open>error\<close>; so a status that is not \<open>streaming\<close> never becomes
  \<open>streaming\<close> again. A streaming update leaves the status as it is. Applying a
  variation makes the status of the focused artifact of the current session \<open>complete\<close>,
  whatever it was: transitions between \<open>complete\<close> and \<open>error\<close> are not excluded.
\<close>

theorem C3_status_never_back_to_streaming:
  assumes "i < length (sessions st)" and "j < length (artifacts (sessions st ! i))"
  shows "i < length (sessions (run st es))
         \<and> j < length (artifacts (sessions (run st es) ! i))
         \<and> status_at (run st es) i j \<in> {status_at st i j, Complete, Error}
         \<and> (status_at st i j \<noteq> Streaming \<longrightarrow> status_at (run st es) i j \<noteq> Streaming)
         \<and> status_at (step st (StreamUpdate sid aid h)) i j = status_at st i j
         \<and> (focusedArtifactIndex st = Some j \<and> currentSessionIndex st = int i \<longrightarrow>
               status_at (step st (ApplyVariation h)) i j = Complete)"
proof -
  have "i < length (sessions (run st es))
         \<and> j < length (artifacts (sessions (run st es) ! i))
         \<and> status_at (run st es) i j \<in> {status_at st i j, Complete, Error}"
    using assms
  proof (induction es arbitrary: st)
    case Nil
    then show ?case by (simp add: run_def)
  next
    case (Cons e es)
    from step_positions [OF Cons.prems(1), of e] Cons.prems(2)
    have p: "i < length (sessions (step st e))" "j < length (artifacts (sessions (step st e) ! i))"
      by auto
    from Cons.IH [OF p] step_status [OF Cons.prems, of e]
    show ?case by (auto simp: run_def)
  qed
  moreover have "status_at (step st (StreamUpdate sid aid h)) i j = status_at st i j"
    using assms by (simp add: status_at_def streamUpdate_def updateArtifact_nth)
  moreover have "status_at (step st (ApplyVariation h)) i j = Complete"
    if "focusedArtifactIndex st = Some j \<and> currentSessionIndex st = int i"
    using assms that by (simp add: status_at_def applyVariation_def map_index_nth)
  ultimately show ?thesis by auto
qed

theorem C3_status_never_back_to_streaming_witness:
  "0 < length (sessions (run initial_state
         [CreateSession ''s'' ''p'' [] 0 0, Fail ''s'' ''s_0'', SetFocused (Some 0)]))
   \<and> 0 < length (artifacts (sessions (run initial_state
         [CreateSession ''s'' ''p'' [] 0 0, Fail ''s'' ''s_0'', SetFocused (Some 0)]) ! 0))
   \<and> status_at (run initial_state
         [CreateSession ''s'' ''p'' [] 0 0, Fail ''s'' ''s_0'', SetFocused (Some 0)]) 0 0 = Error
   \<and> status_at (run (run initial_state
         [CreateSession ''s'' ''p'' [] 0 0, Fail ''s'' ''s_0'', SetFocused (Some 0)])
         [StreamUpdate ''s'' ''s_0'' ''late'', ApplyVariation ''<b>v</b>'',
          Finalize ''s'' ''s_0'' [], CreateSession ''t'' ''q'' [] 1 1]) 0 0 \<noteq> Streaming
   \<and> status_at (step (run initial_state
         [CreateSession ''s'' ''p'' [] 0 0, Fail ''s'' ''s_0'', SetFocused (Some 0)])
         (StreamUpdate ''s'' ''s_0'' ''late'')) 0 0 = Error
   \<and> status_at (step (run initial_state
         [CreateSession ''s'' ''p'' [] 0 0, Fail ''s'' ''s_0'', SetFocused (Some 0)])
         (ApplyVariation ''<b>v</b>'')) 0 0 = Complete"
proof -
  let ?st = "run initial_state
               [CreateSession ''s'' ''p'' [] 0 0, Fail ''s'' ''s_0'', SetFocused (Some 0)]"
  let ?es = "[StreamUpdate ''s'' ''s_0'' ''late'', ApplyVariation ''<b>v</b>'',
              Finalize ''s'' ''s_0'' [], CreateSession ''t'' ''q'' [] 1 1]"
  have h1: "0 < length (sessions ?st)" by code_simp
  have h2: "0 < length (artifacts (sessions ?st ! 0))" by code_simp
  have h3: "status_at ?st 0 0 = Error" by code_simp
  from h3 have h4: "status_at ?st 0 0 \<noteq> Streaming"
    by (simp only: status.distinct not_False_eq_True)
  have h5: "focusedArtifactIndex ?st = Some 0 \<and> currentSessionIndex ?st = int 0" by code_simp
  note inst1 = C3_status_never_back_to_streaming
               [OF h1 h2, where es = ?es and sid = "''s''" and aid = "''s_0''"
                  and h = "''late''"]
  note inst2 = C3_status_never_back_to_streaming
               [OF h1 h2, where es = ?es and sid = "''s''" and aid = "''s_0''"
                  and h = "''<b>v</b>''"]
  from inst1 h4 have a: "status_at (run ?st ?es) 0 0 \<noteq> Streaming" by blast
  from inst1 h3 have b: "status_at (step ?st (StreamUpdate ''s'' ''s_0'' ''late'')) 0 0 = Error"
    by simp
  from inst2 h5 have c: "status_at (step ?st (ApplyVariation ''<b>v</b>'')) 0 0 = Complete"
    by blast
  from h1 h2 h3 a b c show ?thesis by blast
qed

subsection \<open>Finalization of a completed stream (claim C8)\<close>

lemma run_Nil [simp]: "run st [] = st"
  by (simp add: run_def)

lemma run_Cons [simp]: "run st (e # es) = run (step st e) es"
  by (simp add: run_def)

lemma run_append: "run st (xs @ ys) = run (run st xs) ys"
  by (simp add: run_def)

lemma updateArtifact_twice:
  assumes "\<And>art. artifact_id (g art) = artifact_id art"
  shows "updateArtifact sid aid f (updateArtifact sid aid g ss) = updateArtifact sid aid (f \<circ> g) ss"
  using assms by (simp add: updateArtifact_def comp_def cong: if_cong)

lemma finalize_after_streamUpdate:
  "finalize sid aid x (streamUpdate sid aid y ss) = finalize sid aid x ss"
  by (simp add: finalize_def streamUpdate_def Let_def updateArtifact_twice comp_def)

lemma fail_after_streamUpdate:
  "fail sid aid (streamUpdate sid aid y ss) = fail sid aid ss"
  by (simp add: fail_def streamUpdate_def updateArtifact_twice comp_def)

lemma finalize_after_stream_updates:
  "finalize sid aid x (sessions (run st (stream_updates sid aid acc chunks)))
     = finalize sid aid x (sessions st)"
proof (induction chunks arbitrary: st acc)
  case Nil
  show ?case by simp
next
  case (Cons chunk rest)
  show ?case
  proof (cases chunk)
    case None
    with Cons show ?thesis by simp
  next
    case (Some t)
    with Cons [of "step st (StreamUpdate sid aid (acc @ t))" "acc @ t"]
    show ?thesis by (simp add: finalize_after_streamUpdate)
  qed
qed

lemma fail_after_stream_updates:
  "fail sid aid (sessions (run st (stream_updates sid aid acc chunks)))
     = fail sid aid (sessions st)"
proof (induction chunks arbitrary: st acc)
  case Nil
  show ?case by simp
next
  case (Cons chunk rest)
  show ?case
  proof (cases chunk)
    case None
    with Cons show ?thesis by simp
  next
    case (Some t)
    with Cons [of "step st (StreamUpdate sid aid (acc @ t))" "acc @ t"]
    show ?thesis by (simp add: fail_after_streamUpdate)
  qed
qed

lemma stream_updates_keep_indices:
  "currentSessionIndex (run st (stream_updates sid aid acc chunks)) = currentSessionIndex st
   \<and> focusedArtifactIndex (run st (stream_updates sid aid acc chunks)) = focusedArtifactIndex st"
proof (induction chunks arbitrary: st acc)
  case Nil
  show ?case by simp
next
  case (Cons chunk rest)
  show ?case
  proof (cases chunk)
    case None
    with Cons show ?thesis by simp
  next
    case (Some t)
    with Cons [of "step st (StreamUpdate sid aid (acc @ t))" "acc @ t"]
    show ?thesis by simp
  qed
qed


text \<open>
  \<open>trimmed\<close>: no JavaScript white space at either end. The cleaned text is trimmed.
\<close>

definition trimmed :: "string \<Rightarrow> bool" where
  "trimmed s = (s = [] \<or> (\<not> is_js_space (hd s) \<and> \<not> is_js_space (last s)))"

lemma hd_trimStart: "trimStart s \<noteq> [] \<Longrightarrow> \<not> is_js_space (hd (trimStart s))"
  unfolding trimStart_def by (rule hd_dropWhile)

lemma last_trimEnd: "trimEnd s \<noteq> [] \<Longrightarrow> \<not> is_js_space (last (trimEnd s))"
  unfolding trimEnd_def using hd_dropWhile [of is_js_space "rev s"] by (simp add: last_rev)

lemma trimStart_suffix: "suffix (trimStart s) s"
  unfolding trimStart_def by (rule suffix_dropWhile)

lemma trimEnd_prefix: "prefix (trimEnd s) s"
  unfolding trimEnd_def using suffix_dropWhile [of is_js_space "rev s"]
  by (simp add: suffix_to_prefix)

lemma hd_of_prefix: "prefix xs ys \<Longrightarrow> xs \<noteq> [] \<Longrightarrow> hd xs = hd ys"
  by (auto simp: prefix_def)

lemma last_of_suffix: "suffix xs ys \<Longrightarrow> xs \<noteq> [] \<Longrightarrow> last xs = last ys"
  by (auto simp: suffix_def)

lemma trimmed_trimStart:
  assumes "suffix t s" and "trimmed s"
  shows "trimmed (trimStart t)"
proof (cases "trimStart t = []")
  case True
  then show ?thesis by (simp add: trimmed_def)
next
  case False
  have suf: "suffix (trimStart t) s" using trimStart_suffix assms(1) by (rule suffix_order.trans)
  with False have "s \<noteq> []" by auto
  with assms(2) have "\<not> is_js_space (last s)" by (simp add: trimmed_def)
  with last_of_suffix [OF suf False] hd_trimStart [OF False] show ?thesis
    by (simp add: trimmed_def)
qed

lemma trimmed_trimEnd:
  assumes "prefix t s" and "s = [] \<or> \<not> is_js_space (hd s)"
  shows "trimmed (trimEnd t)"
proof (cases "trimEnd t = []")
  case True
  then show ?thesis by (simp add: trimmed_def)
next
  case False
  have pre: "prefix (trimEnd t) s" using trimEnd_prefix assms(1) by (rule prefix_order.trans)
  with False have "s \<noteq> []" by auto
  with assms(2) have "\<not> is_js_space (hd s)" by simp
  with hd_of_prefix [OF pre False] last_trimEnd [OF False] show ?thesis
    by (simp add: trimmed_def)
qed

lemma trimmed_trim: "trimmed (trim s)"
proof -
  have "trimStart s = [] \<or> \<not> is_js_space (hd (trimStart s))" using hd_trimStart by blast
  then show ?thesis unfolding trim_def by (intro trimmed_trimEnd) simp_all
qed

lemma trimmed_cleanup: "trimmed (cleanup s)"
proof -
  define f0 where "f0 = trim s"
  define f1 where "f1 = (if startsWith f0 ''```html'' then trimStart (drop 7 f0) else f0)"
  define f2 where "f2 = (if startsWith f1 ''```'' then trimStart (drop 3 f1) else f1)"
  define f3 where "f3 = (if endsWith f2 ''```'' then trimEnd (take (length f2 - 3) f2) else f2)"
  have c: "cleanup s = f3" by (simp add: cleanup_def f0_def f1_def f2_def f3_def Let_def)
  have 0: "trimmed f0" unfolding f0_def by (rule trimmed_trim)
  have "trimmed (trimStart (drop 7 f0))" using suffix_drop 0 by (rule trimmed_trimStart)
  with 0 have 1: "trimmed f1" unfolding f1_def by simp
  have "trimmed (trimStart (drop 3 f1))" using suffix_drop 1 by (rule trimmed_trimStart)
  with 1 have 2: "trimmed f2" unfolding f2_def by simp
  have "trimmed (trimEnd (take (length f2 - 3) f2))"
    using 2 by (intro trimmed_trimEnd [of _ f2]) (auto simp: take_is_prefix trimmed_def)
  then have "trimmed f3" unfolding f3_def using 2 by simp
  with c show ?thesis by simp
qed

lemma trim_trimmed: "trimmed s \<Longrightarrow> trim s = s"
proof -
  assume t: "trimmed s"
  then have 1: "trimStart s = s"
    by (auto simp: trimmed_def trimStart_def dropWhile_eq_self_iff)
  from t have "dropWhile is_js_space (rev s) = rev s"
    by (auto simp: trimmed_def dropWhile_eq_self_iff hd_rev)
  then have "trimEnd s = s" by (simp add: trimEnd_def)
  with 1 show ?thesis by (simp add: trim_def)
qed

lemma trim_cleanup: "trim (cleanup s) = cleanup s"
  using trimmed_cleanup by (rule trim_trimmed)

text \<open>
  What \<open>cleanup\<close> removes. White space around a text that has none at its ends is
  trimmed off. For a body that is not empty and neither begins nor ends with white space
  or a backtick, wrapped in an opening fence and a closing fence with white space around
  them, \<open>cleanup\<close> gives the body (\<open>cleanup_fenced\<close>).
\<close>

lemma trimStart_spaces:
  assumes "list_all is_js_space w" and "x = [] \<or> \<not> is_js_space (hd x)"
  shows "trimStart (w @ x) = x"
proof -
  from assms(1) have "dropWhile is_js_space (w @ x) = dropWhile is_js_space x"
    by (simp add: list_all_iff)
  moreover from assms(2) have "dropWhile is_js_space x = x"
    by (auto simp: dropWhile_eq_self_iff)
  ultimately show ?thesis by (simp add: trimStart_def)
qed

lemma trimEnd_spaces:
  assumes "list_all is_js_space w" and "x = [] \<or> \<not> is_js_space (last x)"
  shows "trimEnd (x @ w) = x"
proof -
  from assms(1) have "dropWhile is_js_space (rev w @ rev x) = dropWhile is_js_space (rev x)"
    by (intro dropWhile_append2) (simp add: list_all_iff)
  moreover from assms(2) have "dropWhile is_js_space (rev x) = rev x"
    by (auto simp: dropWhile_eq_self_iff hd_rev)
  ultimately show ?thesis by (simp add: trimEnd_def)
qed

lemma trim_spaces:
  assumes "list_all is_js_space w" and "list_all is_js_space w'"
    and "x = [] \<or> (\<not> is_js_space (hd x) \<and> \<not> is_js_space (last x))"
  shows "trim (w @ x @ w') = x"
proof (cases "x = []")
  case True
  from assms(1,2) have "list_all is_js_space (w @ w')" by simp
  from trimStart_spaces [OF this, of "[]"] True show ?thesis
    by (simp add: trim_def trimEnd_def)
next
  case False
  with assms(3) have h: "\<not> is_js_space (hd x)" and l: "\<not> is_js_space (last x)" by auto
  from False h have "trimStart (w @ (x @ w')) = x @ w'"
    by (intro trimStart_spaces assms(1)) simp
  moreover from l have "trimEnd (x @ w') = x" by (intro trimEnd_spaces assms(2)) simp
  ultimately show ?thesis by (simp add: trim_def)
qed

lemma backtick_not_space: "\<not> is_js_space CHR ''`''" "\<not> is_js_space CHR ''h''"
  by (simp_all add: is_js_space_def)

lemma not_startsWith_hd:
  "x \<noteq> [] \<Longrightarrow> hd x \<noteq> hd p \<Longrightarrow> p \<noteq> [] \<Longrightarrow> \<not> startsWith x p"
  by (cases x; cases p) (auto simp: startsWith_def)

lemma not_endsWith_last:
  "x \<noteq> [] \<Longrightarrow> last x \<noteq> last p \<Longrightarrow> p \<noteq> [] \<Longrightarrow> \<not> endsWith x p"
proof
  assume a: "x \<noteq> []" "last x \<noteq> last p" "p \<noteq> []" "endsWith x p"
  then have "drop (length x - length p) x = p" by (simp add: endsWith_def)
  then have "last p = last (drop (length x - length p) x)" by simp
  also have "\<dots> = last x" using a by (intro last_drop) (auto simp: endsWith_def)
  finally show False using a by simp
qed

lemma cleanup_unfold:
  "cleanup s =
     (let f0 = trim s;
          f1 = (if startsWith f0 ''```html'' then trimStart (drop 7 f0) else f0);
          f2 = (if startsWith f1 ''```'' then trimStart (drop 3 f1) else f1)
      in if endsWith f2 ''```'' then trimEnd (take (length f2 - 3) f2) else f2)"
  by (simp add: cleanup_def Let_def)

lemma cleanup_tail:
  assumes b: "b \<noteq> []" "\<not> is_js_space (last b)" "last b \<noteq> CHR ''`''"
    and w4: "list_all is_js_space w4"
    and tr: "closing = [] \<or> closing = w4 @ ''```''"
  shows "(if endsWith (b @ closing) ''```'' then trimEnd (take (length (b @ closing) - 3) (b @ closing))
          else b @ closing) = b"
proof -
  from tr show ?thesis
  proof
    assume t: "closing = []"
    have "\<not> endsWith b ''```''" using b by (intro not_endsWith_last) simp_all
    with t show ?thesis by simp
  next
    assume t: "closing = w4 @ ''```''"
    then have "endsWith (b @ closing) ''```''" by (simp add: endsWith_def)
    moreover have "take (length (b @ closing) - 3) (b @ closing) = b @ w4" using t by simp
    moreover have "trimEnd (b @ w4) = b" using w4 b by (intro trimEnd_spaces) simp_all
    ultimately show ?thesis by simp
  qed
qed

lemma cleanup_fenced:
  assumes ws: "list_all is_js_space w1" "list_all is_js_space w2" "list_all is_js_space w3"
      "list_all is_js_space w4" "list_all is_js_space w5"
    and b: "b \<noteq> []" "\<not> is_js_space (hd b)" "hd b \<noteq> CHR ''`''"
      "\<not> is_js_space (last b)" "last b \<noteq> CHR ''`''"
    and ld: "lead = [] \<or> lead = ''```html'' @ w2 \<or> lead = ''```html'' @ w2 @ ''```'' @ w3
             \<or> (lead = ''```'' @ w3 \<and> (w3 \<noteq> [] \<or> hd b \<noteq> CHR ''h''))"
    and tr: "closing = [] \<or> closing = w4 @ ''```''"
  shows "cleanup (w1 @ lead @ b @ closing @ w5) = b"
proof -
  define g where "g = b @ closing"
  have g: "g \<noteq> []" "hd g = hd b" using b(1) by (simp_all add: g_def)
  have lg: "\<not> is_js_space (last g)"
    using tr b by (auto simp: g_def backtick_not_space)
  have core: "lead @ g \<noteq> []" "\<not> is_js_space (hd (lead @ g))" "\<not> is_js_space (last (lead @ g))"
    using ld g b lg by (auto simp: backtick_not_space)
  have f0: "trim (w1 @ lead @ b @ closing @ w5) = lead @ g"
    using trim_spaces [OF ws(1) ws(5), of "lead @ g"] core by (simp add: g_def)
  have n1: "\<not> startsWith g ''```html''" using g b by (intro not_startsWith_hd) simp_all
  have n2: "\<not> startsWith g ''```''" using g b by (intro not_startsWith_hd) simp_all
  have ts: "trimStart (w @ g) = g" if "list_all is_js_space w" for w
    using that g b by (intro trimStart_spaces) simp_all
  define f1 where "f1 = (if startsWith (lead @ g) ''```html'' then trimStart (drop 7 (lead @ g))
                          else lead @ g)"
  define f2 where "f2 = (if startsWith f1 ''```'' then trimStart (drop 3 f1) else f1)"
  have f2: "f2 = g"
  proof -
    from ld consider (none) "lead = []" | (html) "lead = ''```html'' @ w2"
      | (both) "lead = ''```html'' @ w2 @ ''```'' @ w3"
      | (bare) "lead = ''```'' @ w3" "w3 \<noteq> [] \<or> hd b \<noteq> CHR ''h''" by blast
    then show ?thesis
    proof cases
      case none
      with n1 n2 show ?thesis by (simp add: f1_def f2_def)
    next
      case html
      then have "f1 = trimStart (w2 @ g)" by (simp add: f1_def startsWith_def)
      with ts [OF ws(2)] n2 show ?thesis by (simp add: f2_def)
    next
      case both
      then have "f1 = trimStart (w2 @ (''```'' @ w3 @ g))" by (simp add: f1_def startsWith_def)
      also have "\<dots> = ''```'' @ w3 @ g"
        using ws(2) by (rule trimStart_spaces) (simp add: backtick_not_space)
      finally have "f1 = ''```'' @ w3 @ g" .
      then have "f2 = trimStart (w3 @ g)" by (simp add: f2_def startsWith_def)
      with ts [OF ws(3)] show ?thesis by simp
    next
      case bare
      have "hd (w3 @ g) \<noteq> CHR ''h''"
      proof (cases "w3 = []")
        case True
        with bare(2) g show ?thesis by simp
      next
        case False
        with ws(3) have "is_js_space (hd (w3 @ g))" by (cases w3) simp_all
        with backtick_not_space(2) show ?thesis by auto
      qed
      moreover have "w3 @ g \<noteq> []" using g by simp
      ultimately have "\<not> startsWith (w3 @ g) ''html''" by (intro not_startsWith_hd) simp_all
      then have "\<not> startsWith (lead @ g) ''```html''"
        using bare(1) by (simp add: startsWith_def)
      then have "f1 = ''```'' @ w3 @ g" using bare(1) by (simp add: f1_def)
      then have "f2 = trimStart (w3 @ g)" by (simp add: f2_def startsWith_def)
      with ts [OF ws(3)] show ?thesis by simp
    qed
  qed
  have "cleanup (w1 @ lead @ b @ closing @ w5)
          = (if endsWith f2 ''```'' then trimEnd (take (length f2 - 3) f2) else f2)"
    unfolding cleanup_unfold f0 by (simp add: Let_def f1_def f2_def)
  also have "\<dots> = b"
    unfolding f2 g_def using b(1,4,5) ws(4) tr by (rule cleanup_tail)
  finally show ?thesis .
qed

lemma cleanup_spaces: "list_all is_js_space w \<Longrightarrow> cleanup w = []"
  using trim_spaces [of w "[]" "[]"] by (simp add: cleanup_unfold Let_def startsWith_def endsWith_def)

lemma cleanup_empty_fence:
  assumes "list_all is_js_space w1" "list_all is_js_space w2" "list_all is_js_space w3"
  shows "cleanup (w1 @ ''```html'' @ w2 @ ''```'' @ w3) = []"
proof -
  have f0: "trim (w1 @ (''```html'' @ w2 @ ''```'') @ w3) = ''```html'' @ w2 @ ''```''"
    using assms(1,3) by (rule trim_spaces) (simp add: backtick_not_space)
  have t: "trimStart (w2 @ ''```'') = ''```''"
    using assms(2) by (rule trimStart_spaces) (simp add: backtick_not_space)
  have e: "trimStart [] = []" by (simp add: trimStart_def)
  from f0 have f0': "trim (w1 @ ''```html'' @ w2 @ ''```'' @ w3) = ''```html'' @ w2 @ ''```''"
    by simp
  show ?thesis
    unfolding cleanup_unfold f0' by (simp add: Let_def startsWith_def endsWith_def t e)
qed

text \<open>
  C8: when a task has received its whole stream without an exception, the state's
  sessions are those before the task with one update applied: in the session and artifact
  the task was started for, the content is the cleaned accumulated text and the status is
  \<open>complete\<close> when that text is not empty and \<open>error\<close> when it is empty. The task
  changes neither of the two indices. The cleaned text has no white space at either end.

  What is cleaned away: let the accumulated text be a body, not empty and neither
  beginning nor ending with white space or a backtick, with white space \<open>w1\<close> and \<open>w5\<close>
  around it, and between them and the body optionally an opening fence and a closing
  fence. The opening fence is \<open>```html\<close>, or \<open>```\<close> (then followed by white space, or by
  a body that does not begin with \<open>h\<close>), or \<open>```html\<close> and then \<open>```\<close>, each followed
  by any white space; the closing fence is \<open>```\<close> after any white space. Then the cleaned
  text is the body. When the accumulated text is white space only, or white space
  around \<open>```html\<close>, white space and \<open>```\<close>, the cleaned text is empty, and so the
  status is \<open>error\<close>.
\<close>

theorem C8_completed_stream_finalized:
  "sessions (run st (generateArtifact sid aid (chunks, Ended)))
     = updateArtifact sid aid
         (\<lambda>art. art\<lparr>html := cleanup (stream_text chunks),
                     status := (if cleanup (stream_text chunks) \<noteq> [] then Complete else Error)\<rparr>)
         (sessions st)
   \<and> (\<forall>i j. i < length (sessions st) \<and> j < length (artifacts (sessions st ! i))
         \<and> session_id (sessions st ! i) = sid
         \<and> artifact_id (artifacts (sessions st ! i) ! j) = aid
       \<longrightarrow> html (artifacts (sessions (run st (generateArtifact sid aid (chunks, Ended))) ! i) ! j)
             = cleanup (stream_text chunks)
           \<and> status (artifacts (sessions (run st (generateArtifact sid aid (chunks, Ended))) ! i) ! j)
             = (if cleanup (stream_text chunks) = [] then Error else Complete))
   \<and> trim (cleanup (stream_text chunks)) = cleanup (stream_text chunks)
   \<and> currentSessionIndex (run st (generateArtifact sid aid (chunks, Ended)))
       = currentSessionIndex st
   \<and> focusedArtifactIndex (run st (generateArtifact sid aid (chunks, Ended)))
       = focusedArtifactIndex st
   \<and> (list_all is_js_space w1 \<and> list_all is_js_space w2 \<and> list_all is_js_space w3
        \<and> list_all is_js_space w4 \<and> list_all is_js_space w5
        \<and> b \<noteq> [] \<and> \<not> is_js_space (hd b) \<and> hd b \<noteq> CHR ''`''
        \<and> \<not> is_js_space (last b) \<and> last b \<noteq> CHR ''`''
        \<and> (lead = [] \<or> lead = ''```html'' @ w2 \<or> lead = ''```html'' @ w2 @ ''```'' @ w3
             \<or> (lead = ''```'' @ w3 \<and> (w3 \<noteq> [] \<or> hd b \<noteq> CHR ''h'')))
        \<and> (closing = [] \<or> closing = w4 @ ''```'')
        \<and> stream_text chunks = w1 @ lead @ b @ closing @ w5
      \<longrightarrow> cleanup (stream_text chunks) = b)
   \<and> (list_all is_js_space w1 \<and> list_all is_js_space w2 \<and> list_all is_js_space w3
        \<and> (stream_text chunks = w1 \<or> stream_text chunks = w1 @ ''```html'' @ w2 @ ''```'' @ w3)
      \<longrightarrow> cleanup (stream_text chunks) = [])"
proof -
  have eq: "sessions (run st (generateArtifact sid aid (chunks, Ended)))
              = finalize sid aid (stream_text chunks) (sessions st)"
    by (simp add: run_append finalize_after_stream_updates)
  have ix: "currentSessionIndex (run st (generateArtifact sid aid (chunks, Ended)))
              = currentSessionIndex st"
    "focusedArtifactIndex (run st (generateArtifact sid aid (chunks, Ended)))
              = focusedArtifactIndex st"
    by (simp_all add: run_append stream_updates_keep_indices)
  have store: "sessions (run st (generateArtifact sid aid (chunks, Ended)))
     = updateArtifact sid aid
         (\<lambda>art. art\<lparr>html := cleanup (stream_text chunks),
                     status := (if cleanup (stream_text chunks) \<noteq> [] then Complete else Error)\<rparr>)
         (sessions st)
   \<and> (\<forall>i j. i < length (sessions st) \<and> j < length (artifacts (sessions st ! i))
         \<and> session_id (sessions st ! i) = sid
         \<and> artifact_id (artifacts (sessions st ! i) ! j) = aid
       \<longrightarrow> html (artifacts (sessions (run st (generateArtifact sid aid (chunks, Ended))) ! i) ! j)
             = cleanup (stream_text chunks)
           \<and> status (artifacts (sessions (run st (generateArtifact sid aid (chunks, Ended))) ! i) ! j)
             = (if cleanup (stream_text chunks) = [] then Error else Complete))
   \<and> trim (cleanup (stream_text chunks)) = cleanup (stream_text chunks)
   \<and> currentSessionIndex (run st (generateArtifact sid aid (chunks, Ended)))
       = currentSessionIndex st
   \<and> focusedArtifactIndex (run st (generateArtifact sid aid (chunks, Ended)))
       = focusedArtifactIndex st"
    unfolding eq ix by (auto simp: finalize_def Let_def updateArtifact_nth trim_cleanup)
  have fenced: "cleanup (stream_text chunks) = b"
    if "list_all is_js_space w1 \<and> list_all is_js_space w2 \<and> list_all is_js_space w3
        \<and> list_all is_js_space w4 \<and> list_all is_js_space w5
        \<and> b \<noteq> [] \<and> \<not> is_js_space (hd b) \<and> hd b \<noteq> CHR ''`''
        \<and> \<not> is_js_space (last b) \<and> last b \<noteq> CHR ''`''
        \<and> (lead = [] \<or> lead = ''```html'' @ w2 \<or> lead = ''```html'' @ w2 @ ''```'' @ w3
             \<or> (lead = ''```'' @ w3 \<and> (w3 \<noteq> [] \<or> hd b \<noteq> CHR ''h'')))
        \<and> (closing = [] \<or> closing = w4 @ ''```'')
        \<and> stream_text chunks = w1 @ lead @ b @ closing @ w5"
  proof -
    from that have "cleanup (w1 @ lead @ b @ closing @ w5) = b"
      by (intro cleanup_fenced [where ?w2.0 = w2 and ?w3.0 = w3 and ?w4.0 = w4]) simp_all
    with that show ?thesis by simp
  qed
  have empty: "cleanup (stream_text chunks) = []"
    if "list_all is_js_space w1 \<and> list_all is_js_space w2 \<and> list_all is_js_space w3
        \<and> (stream_text chunks = w1 \<or> stream_text chunks = w1 @ ''```html'' @ w2 @ ''```'' @ w3)"
    using that cleanup_spaces [of w1] cleanup_empty_fence [of w1 w2 w3] by auto
  from store fenced empty show ?thesis by blast
qed

theorem C8_completed_stream_finalized_witness:
  "session_id (sessions (run initial_state [CreateSession ''s'' ''p'' [] 0 0]) ! 0) = ''s''
   \<and> artifact_id (artifacts (sessions (run initial_state [CreateSession ''s'' ''p'' [] 0 0]) ! 0) ! 0)
       = ''s_0''
   \<and> cleanup (stream_text [Some '' ```html'', None, Some ''\<newline><p>hi</p>\<newline>'', Some ''``` ''])
       = ''<p>hi</p>''
   \<and> html (artifacts (sessions (run (run initial_state [CreateSession ''s'' ''p'' [] 0 0])
         (generateArtifact ''s'' ''s_0''
            ([Some '' ```html'', None, Some ''\<newline><p>hi</p>\<newline>'', Some ''``` ''], Ended))) ! 0) ! 0)
       = ''<p>hi</p>''
   \<and> status (artifacts (sessions (run (run initial_state [CreateSession ''s'' ''p'' [] 0 0])
         (generateArtifact ''s'' ''s_0''
            ([Some '' ```html'', None, Some ''\<newline><p>hi</p>\<newline>'', Some ''``` ''], Ended))) ! 0) ! 0)
       = Complete
   \<and> cleanup (stream_text [Some '' ```html\<newline>'', Some ''``` '']) = []
   \<and> status (artifacts (sessions (run (run initial_state [CreateSession ''s'' ''p'' [] 0 0])
         (generateArtifact ''s'' ''s_0'' ([Some '' ```html\<newline>'', Some ''``` ''], Ended))) ! 0) ! 0)
       = Error"
proof -
  let ?st = "run initial_state [CreateSession ''s'' ''p'' [] 0 0]"
  let ?chunks = "[Some '' ```html'', None, Some ''\<newline><p>hi</p>\<newline>'', Some ''``` '']"
  let ?none = "[Some '' ```html\<newline>'', Some ''``` '']"
  have h1: "0 < length (sessions ?st) \<and> 0 < length (artifacts (sessions ?st ! 0))" by code_simp
  have h2: "session_id (sessions ?st ! 0) = ''s''" by code_simp
  have h3: "artifact_id (artifacts (sessions ?st ! 0) ! 0) = ''s_0''" by code_simp
  have sp: "list_all is_js_space '' ''" "list_all is_js_space ''\<newline>''" "list_all is_js_space []"
    by (simp_all add: is_js_space_def)
  have bd: "''<p>hi</p>'' \<noteq> []" "\<not> is_js_space (hd ''<p>hi</p>'')" "hd ''<p>hi</p>'' \<noteq> CHR ''`''"
    "\<not> is_js_space (last ''<p>hi</p>'')" "last ''<p>hi</p>'' \<noteq> CHR ''`''"
    by (simp_all add: is_js_space_def)
  have tx: "stream_text ?chunks
              = '' '' @ (''```html'' @ ''\<newline>'') @ ''<p>hi</p>'' @ (''\<newline>'' @ ''```'') @ '' ''"
    by (simp add: stream_text_def)
  note inst = C8_completed_stream_finalized [where st = ?st and sid = "''s''" and aid = "''s_0''"
         and chunks = ?chunks and ?w1.0 = "'' ''" and ?w2.0 = "''\<newline>''" and ?w3.0 = "[]"
         and ?w4.0 = "''\<newline>''" and ?w5.0 = "'' ''" and b = "''<p>hi</p>''"
         and lead = "''```html'' @ ''\<newline>''" and closing = "''\<newline>'' @ ''```''"]
  from inst sp bd tx have c: "cleanup (stream_text ?chunks) = ''<p>hi</p>''"
    by blast
  from inst h1 h2 h3
  have "html (artifacts (sessions (run ?st (generateArtifact ''s'' ''s_0'' (?chunks, Ended))) ! 0) ! 0)
          = cleanup (stream_text ?chunks)
        \<and> status (artifacts (sessions (run ?st (generateArtifact ''s'' ''s_0'' (?chunks, Ended))) ! 0) ! 0)
          = (if cleanup (stream_text ?chunks) = [] then Error else Complete)"
    by blast
  with c have r1: "html (artifacts (sessions (run ?st (generateArtifact ''s'' ''s_0'' (?chunks, Ended))) ! 0) ! 0)
          = ''<p>hi</p>''
        \<and> status (artifacts (sessions (run ?st (generateArtifact ''s'' ''s_0'' (?chunks, Ended))) ! 0) ! 0)
          = Complete"
    by simp
  have tx2: "stream_text ?none = '' '' @ ''```html'' @ ''\<newline>'' @ ''```'' @ '' ''"
    by (simp add: stream_text_def)
  note inst2 = C8_completed_stream_finalized [where st = ?st and sid = "''s''" and aid = "''s_0''"
         and chunks = ?none and ?w1.0 = "'' ''" and ?w2.0 = "''\<newline>''" and ?w3.0 = "'' ''"]
  from inst2 sp tx2 have c2: "cleanup (stream_text ?none) = []"
    by blast
  from inst2 h1 h2 h3
  have "status (artifacts (sessions (run ?st (generateArtifact ''s'' ''s_0'' (?none, Ended))) ! 0) ! 0)
          = (if cleanup (stream_text ?none) = [] then Error else Complete)"
    by blast
  with c2 have r2: "status (artifacts (sessions (run ?st (generateArtifact ''s'' ''s_0'' (?none, Ended))) ! 0) ! 0)
          = Error"
    by simp
  from h2 h3 c r1 c2 r2 show ?thesis by blast
qed

subsection \<open>Isolation of a failing task (claim C9)\<close>

text \<open>
  \<open>target\<close> is the session and artifact a task update is keyed by, and \<open>art_step\<close> what
  the update does to an artifact it is keyed to. \<open>art_run\<close> applies to one artifact the
  updates of a run that are keyed to it. \<open>interleavings\<close> are the orders in which the
  updates of concurrent tasks can reach the state: each task's updates in their own order.
  \<open>task_events\<close> are the tasks that \<open>Promise.all\<close> starts, one for each placeholder and
  its stream.
\<close>

fun target :: "event \<Rightarrow> (string \<times> string) option" where
  "target (StreamUpdate sid aid h) = Some (sid, aid)"
| "target (Finalize sid aid h) = Some (sid, aid)"
| "target (Fail sid aid) = Some (sid, aid)"
| "target _ = None"

fun art_step :: "artifact \<Rightarrow> event \<Rightarrow> artifact" where
  "art_step art (StreamUpdate sid aid h) = art\<lparr>html := h\<rparr>"
| "art_step art (Finalize sid aid h) =
     art\<lparr>html := cleanup h, status := (if cleanup h \<noteq> [] then Complete else Error)\<rparr>"
| "art_step art (Fail sid aid) = art\<lparr>html := failure_placeholder, status := Error\<rparr>"
| "art_step art _ = art"

definition art_run :: "string \<Rightarrow> string \<Rightarrow> artifact \<Rightarrow> event list \<Rightarrow> artifact" where
  "art_run sid aid art es = foldl art_step art (filter (\<lambda>e. target e = Some (sid, aid)) es)"

fun interleavings :: "'a list list \<Rightarrow> 'a list set" where
  "interleavings [] = {[]}"
| "interleavings (xs # xss) = (\<Union>zs \<in> interleavings xss. shuffles xs zs)"

definition task_events :: "string \<Rightarrow> response_stream list \<Rightarrow> event list list" where
  "task_events sessionId streams =
     map (\<lambda>(art, s). generateArtifact sessionId (artifact_id art) s)
         (zip (placeholderArtifacts sessionId) streams)"

lemma art_step_id [simp]: "artifact_id (art_step art e) = artifact_id art"
  by (cases e) simp_all

lemma step_task:
  "target e = Some (sid, aid) \<Longrightarrow>
   sessions (step st e) = updateArtifact sid aid (\<lambda>art. art_step art e) (sessions st)"
  by (cases e) (simp_all add: streamUpdate_def finalize_def fail_def Let_def)

lemma art_run_Nil [simp]: "art_run sid aid art [] = art"
  by (simp add: art_run_def)

lemma art_run_Cons:
  "art_run sid aid art (e # es) =
     (if target e = Some (sid, aid) then art_run sid aid (art_step art e) es
      else art_run sid aid art es)"
  by (simp add: art_run_def)

lemma run_tasks:
  "\<forall>e \<in> set es. target e \<noteq> None \<Longrightarrow>
   sessions (run st es)
     = map (\<lambda>sess. sess\<lparr>artifacts :=
              map (\<lambda>art. art_run (session_id sess) (artifact_id art) art es) (artifacts sess)\<rparr>)
           (sessions st)"
proof (induction es arbitrary: st)
  case Nil
  show ?case by (simp add: map_idI)
next
  case (Cons e es)
  then obtain sid aid where t: "target e = Some (sid, aid)" by auto
  from Cons.prems have "\<forall>e \<in> set es. target e \<noteq> None" by simp
  from Cons.IH [OF this, of "step st e"]
  show ?case
    by (simp add: step_task [OF t] updateArtifact_def art_run_Cons t comp_def cong: if_cong)
qed

lemma filter_interleavings:
  "es \<in> interleavings xss \<Longrightarrow> filter P es \<in> interleavings (map (filter P) xss)"
proof (induction xss arbitrary: es)
  case Nil
  then show ?case by simp
next
  case (Cons xs xss)
  then obtain zs where zs: "zs \<in> interleavings xss" and es: "es \<in> shuffles xs zs" by auto
  from es have "filter P es \<in> filter P ` shuffles xs zs" by blast
  then have "filter P es \<in> shuffles (filter P xs) (filter P zs)" by (simp only: filter_shuffles)
  with Cons.IH [OF zs] show ?case by auto
qed

lemma stream_updates_targets:
  "\<forall>e \<in> set (stream_updates sid aid acc chunks). target e = Some (sid, aid)"
proof (induction chunks arbitrary: acc)
  case Nil
  show ?case by simp
next
  case (Cons chunk rest)
  then show ?case by (cases chunk) auto
qed

lemma generateArtifact_targets:
  "\<forall>e \<in> set (generateArtifact sid aid s). target e = Some (sid, aid)"
proof (cases s)
  case (Pair chunks ending)
  then show ?thesis using stream_updates_targets [of sid aid "[]" chunks] by (cases ending) auto
qed

lemma filter_generateArtifact:
  "filter (\<lambda>e. target e = Some (sid, aid)) (generateArtifact sid aid' s)
     = (if aid' = aid then generateArtifact sid aid' s else [])"
proof (cases "aid' = aid")
  case True
  then show ?thesis using generateArtifact_targets [of sid aid s] by (simp add: filter_id_conv)
next
  case False
  then show ?thesis using generateArtifact_targets [of sid aid' s] by (auto simp: filter_empty_conv)
qed

lemma foldl_stream_updates:
  "\<exists>h. foldl art_step art (stream_updates sid aid acc chunks) = art\<lparr>html := h\<rparr>"
proof (induction chunks arbitrary: art acc)
  case Nil
  have "foldl art_step art (stream_updates sid aid acc []) = art\<lparr>html := html art\<rparr>" by simp
  then show ?case by blast
next
  case (Cons chunk rest)
  show ?case
  proof (cases chunk)
    case None
    with Cons show ?thesis by simp
  next
    case (Some t)
    from Cons [of "art\<lparr>html := acc @ t\<rparr>" "acc @ t"] obtain h
      where "foldl art_step (art\<lparr>html := acc @ t\<rparr>) (stream_updates sid aid (acc @ t) rest)
               = art\<lparr>html := acc @ t, html := h\<rparr>" by blast
    with Some have "foldl art_step art (stream_updates sid aid acc (chunk # rest)) = art\<lparr>html := h\<rparr>"
      by simp
    then show ?thesis by blast
  qed
qed

lemma task_ended:
  "foldl art_step art (generateArtifact sid aid (chunks, Ended))
     = art\<lparr>html := cleanup (stream_text chunks),
           status := (if cleanup (stream_text chunks) \<noteq> [] then Complete else Error)\<rparr>"
proof -
  obtain h where "foldl art_step art (stream_updates sid aid [] chunks) = art\<lparr>html := h\<rparr>"
    using foldl_stream_updates by blast
  then show ?thesis by simp
qed

lemma task_threw:
  "foldl art_step art (generateArtifact sid aid (chunks, Threw))
     = art\<lparr>html := failure_placeholder, status := Error\<rparr>"
proof -
  obtain h where "foldl art_step art (stream_updates sid aid [] chunks) = art\<lparr>html := h\<rparr>"
    using foldl_stream_updates by blast
  then show ?thesis by simp
qed

lemma char_of_digits:
  "char_of (48 :: nat) = CHR ''0''" "char_of (49 :: nat) = CHR ''1''" "char_of (50 :: nat) = CHR ''2''"
  by code_simp+

lemma placeholder_ids:
  "map artifact_id (placeholderArtifacts sid) = [sid @ ''_0'', sid @ ''_1'', sid @ ''_2'']"
  by (simp add: placeholderArtifacts_def upt_rec char_of_digits)

lemma task_events_3:
  "task_events sid [s0, s1, s2]
     = [generateArtifact sid (sid @ ''_0'') s0,
        generateArtifact sid (sid @ ''_1'') s1,
        generateArtifact sid (sid @ ''_2'') s2]"
  by (simp add: task_events_def placeholderArtifacts_def upt_rec char_of_digits)

lemma interleavings_targets:
  "es \<in> interleavings xss \<Longrightarrow> \<forall>xs \<in> set xss. \<forall>e \<in> set xs. P e \<Longrightarrow> \<forall>e \<in> set es. P e"
proof (induction xss arbitrary: es)
  case Nil
  then show ?case by simp
next
  case (Cons xs xss)
  then obtain zs where zs: "zs \<in> interleavings xss" and es: "es \<in> shuffles xs zs" by auto
  from Cons.IH [OF zs] Cons.prems(2) have "\<forall>e \<in> set zs. P e" by simp
  with set_shuffles [OF es] Cons.prems(2) show ?case by auto
qed


lemma three_artifacts:
  assumes "map artifact_id arts = [x, y, z]"
  obtains a0 a1 a2 where "arts = [a0, a1, a2]" "artifact_id a0 = x" "artifact_id a1 = y"
    "artifact_id a2 = z"
proof -
  from assms have "length arts = 3" by (metis length_map length_Cons list.size(3) numeral_3_eq_3)
  then obtain a0 a1 a2 where "arts = [a0, a1, a2]"
    by (metis (no_types, opaque_lifting) length_0_conv length_Suc_conv numeral_3_eq_3)
  with assms that show ?thesis by simp
qed

lemma interleavings_single_0: "interleavings [xs, [], []] = {xs}"
  by simp

lemma interleavings_single_1: "interleavings [[], xs, []] = {xs}"
  by simp

lemma interleavings_single_2: "interleavings [[], [], xs] = {xs}"
  by simp

lemma tasks_project:
  assumes "es \<in> interleavings [generateArtifact sid (sid @ ''_0'') s0,
                                generateArtifact sid (sid @ ''_1'') s1,
                                generateArtifact sid (sid @ ''_2'') s2]"
  shows "filter (\<lambda>e. target e = Some (sid, sid @ ''_0'')) es = generateArtifact sid (sid @ ''_0'') s0"
    and "filter (\<lambda>e. target e = Some (sid, sid @ ''_1'')) es = generateArtifact sid (sid @ ''_1'') s1"
    and "filter (\<lambda>e. target e = Some (sid, sid @ ''_2'')) es = generateArtifact sid (sid @ ''_2'') s2"
proof -
  show "filter (\<lambda>e. target e = Some (sid, sid @ ''_0'')) es = generateArtifact sid (sid @ ''_0'') s0"
    using filter_interleavings [OF assms, of "\<lambda>e. target e = Some (sid, sid @ ''_0'')"]
    by (simp only: list.map filter_generateArtifact interleavings_single_0) simp
  show "filter (\<lambda>e. target e = Some (sid, sid @ ''_1'')) es = generateArtifact sid (sid @ ''_1'') s1"
    using filter_interleavings [OF assms, of "\<lambda>e. target e = Some (sid, sid @ ''_1'')"]
    by (simp only: list.map filter_generateArtifact interleavings_single_1) simp
  show "filter (\<lambda>e. target e = Some (sid, sid @ ''_2'')) es = generateArtifact sid (sid @ ''_2'') s2"
    using filter_interleavings [OF assms, of "\<lambda>e. target e = Some (sid, sid @ ''_2'')"]
    by (simp only: list.map filter_generateArtifact interleavings_single_2) simp
qed


lemma isolation_scenario:
  assumes fresh: "\<forall>s \<in> set prev. session_id s \<noteq> sid"
    and st: "sessions st = prev @ [sess]" and sid: "session_id sess = sid"
    and ids: "map artifact_id (artifacts sess) = map artifact_id (placeholderArtifacts sid)"
    and es: "es \<in> interleavings (task_events sid [s0, s1, s2])"
  shows "sessions (run st es)
           = prev @ [sess\<lparr>artifacts :=
                 map (\<lambda>(art, s). foldl art_step art (generateArtifact sid (artifact_id art) s))
                     (zip (artifacts sess) [s0, s1, s2])\<rparr>]"
proof -
  let ?g0 = "generateArtifact sid (sid @ ''_0'') s0"
  let ?g1 = "generateArtifact sid (sid @ ''_1'') s1"
  let ?g2 = "generateArtifact sid (sid @ ''_2'') s2"
  from ids have "map artifact_id (artifacts sess) = [sid @ ''_0'', sid @ ''_1'', sid @ ''_2'']"
    by (simp only: placeholder_ids)
  then obtain a0 a1 a2 where arts: "artifacts sess = [a0, a1, a2]"
    and i0: "artifact_id a0 = sid @ ''_0''" and i1: "artifact_id a1 = sid @ ''_1''"
    and i2: "artifact_id a2 = sid @ ''_2''"
    by (rule three_artifacts)
  from es have es': "es \<in> interleavings [?g0, ?g1, ?g2]" by (simp only: task_events_3)
  have tg: "\<forall>e \<in> set es. \<exists>aid. target e = Some (sid, aid)"
  proof (rule interleavings_targets [OF es'])
    show "\<forall>xs \<in> set [?g0, ?g1, ?g2]. \<forall>e \<in> set xs. \<exists>aid. target e = Some (sid, aid)"
      using generateArtifact_targets by simp
  qed
  then have all: "\<forall>e \<in> set es. target e \<noteq> None" by auto
  note proj = tasks_project [OF es']
  have r0: "art_run sid (sid @ ''_0'') a0 es = foldl art_step a0 ?g0"
    by (simp only: art_run_def proj)
  have r1: "art_run sid (sid @ ''_1'') a1 es = foldl art_step a1 ?g1"
    by (simp only: art_run_def proj)
  have r2: "art_run sid (sid @ ''_2'') a2 es = foldl art_step a2 ?g2"
    by (simp only: art_run_def proj)
  have other: "art_run sid' aid art es = art" if "sid' \<noteq> sid" for sid' aid art
  proof -
    from tg that have "filter (\<lambda>e. target e = Some (sid', aid)) es = []"
      by (auto simp: filter_empty_conv)
    then show ?thesis by (simp add: art_run_def)
  qed
  have prev: "map (\<lambda>sess. sess\<lparr>artifacts :=
              map (\<lambda>art. art_run (session_id sess) (artifact_id art) art es) (artifacts sess)\<rparr>) prev
            = prev"
    using fresh by (intro map_idI) (simp add: other)
  have last: "sess\<lparr>artifacts :=
              map (\<lambda>art. art_run (session_id sess) (artifact_id art) art es) (artifacts sess)\<rparr>
            = sess\<lparr>artifacts :=
                 map (\<lambda>(art, s). foldl art_step art (generateArtifact sid (artifact_id art) s))
                     (zip (artifacts sess) [s0, s1, s2])\<rparr>"
    unfolding arts sid by (simp add: i0 i1 i2 r0 r1 r2)
  show ?thesis
    unfolding run_tasks [OF all] st by (simp only: map_append list.map prev last)
qed

text \<open>
  C9: the failure handler writes the fixed placeholder, the text
  \<open><div style="padding:20px; color:red">Generation Failed</div>\<close>, into the content of
  the artifact it is keyed to and sets its status to \<open>error\<close>, and that is all a task whose call or
  stream throws leaves behind, whatever it streamed before; the write changes nothing
  else: every session with another id is the same, every other artifact of the session is
  the same, and so are the two indices. When the state ends with a session of three artifacts whose
  id no earlier session has, and the three tasks run in any interleaving, the second one
  throwing and the other two ending with a cleaned text that is not empty, then the
  earlier sessions are unchanged, the statuses of the three artifacts are \<open>complete\<close>,
  \<open>error\<close>, \<open>complete\<close>, their contents are the first task's cleaned text, the
  placeholder and the third task's cleaned text, and their labels are unchanged.
\<close>

theorem C9_task_failure_is_local:
  \<open>sessions (step st (Fail sid aid))
     = updateArtifact sid aid (\<lambda>art. art\<lparr>html := ''<div style="padding:20px; color:red">Generation Failed</div>'', status := Error\<rparr>) (sessions st)
   \<and> sessions (run st (generateArtifact sid aid (chunks, Threw)))
       = updateArtifact sid aid (\<lambda>art. art\<lparr>html := ''<div style="padding:20px; color:red">Generation Failed</div>'', status := Error\<rparr>)
           (sessions st)
   \<and> currentSessionIndex (step st (Fail sid aid)) = currentSessionIndex st
   \<and> focusedArtifactIndex (step st (Fail sid aid)) = focusedArtifactIndex st
   \<and> length (sessions (step st (Fail sid aid))) = length (sessions st)
   \<and> (\<forall>i < length (sessions st).
         (session_id (sessions st ! i) \<noteq> sid \<longrightarrow>
            sessions (step st (Fail sid aid)) ! i = sessions st ! i)
       \<and> length (artifacts (sessions (step st (Fail sid aid)) ! i))
           = length (artifacts (sessions st ! i))
       \<and> (\<forall>j < length (artifacts (sessions st ! i)).
            artifacts (sessions (step st (Fail sid aid)) ! i) ! j =
              (if session_id (sessions st ! i) = sid
                  \<and> artifact_id (artifacts (sessions st ! i) ! j) = aid
               then (artifacts (sessions st ! i) ! j)\<lparr>html := ''<div style="padding:20px; color:red">Generation Failed</div>'', status := Error\<rparr>
               else artifacts (sessions st ! i) ! j)))
   \<and> ((\<forall>s \<in> set prev. session_id s \<noteq> sid) \<and> sessions st = prev @ [sess]
        \<and> session_id sess = sid
        \<and> map artifact_id (artifacts sess) = map artifact_id (placeholderArtifacts sid)
        \<and> cleanup (stream_text c0) \<noteq> [] \<and> cleanup (stream_text c2) \<noteq> []
        \<and> es \<in> interleavings (task_events sid [(c0, Ended), (c1, Threw), (c2, Ended)])
      \<longrightarrow> butlast (sessions (run st es)) = prev
          \<and> map status (artifacts (last (sessions (run st es)))) = [Complete, Error, Complete]
          \<and> map html (artifacts (last (sessions (run st es))))
              = [cleanup (stream_text c0), ''<div style="padding:20px; color:red">Generation Failed</div>'', cleanup (stream_text c2)]
          \<and> map styleName (artifacts (last (sessions (run st es)))) = map styleName (artifacts sess))\<close>
proof (intro conjI allI impI)
  show \<open>sessions (step st (Fail sid aid))
     = updateArtifact sid aid (\<lambda>art. art\<lparr>html := ''<div style="padding:20px; color:red">Generation Failed</div>'', status := Error\<rparr>) (sessions st)\<close>
    by (simp add: fail_def failure_placeholder_def)
  show \<open>sessions (run st (generateArtifact sid aid (chunks, Threw)))
       = updateArtifact sid aid (\<lambda>art. art\<lparr>html := ''<div style="padding:20px; color:red">Generation Failed</div>'', status := Error\<rparr>)
           (sessions st)\<close>
    using fail_after_stream_updates [of sid aid st \<open>[]\<close> chunks]
    by (simp add: run_append fail_def failure_placeholder_def)
  show \<open>currentSessionIndex (step st (Fail sid aid)) = currentSessionIndex st\<close> by simp
  show \<open>focusedArtifactIndex (step st (Fail sid aid)) = focusedArtifactIndex st\<close> by simp
  show \<open>length (sessions (step st (Fail sid aid))) = length (sessions st)\<close>
    by (simp add: fail_def failure_placeholder_def)
next
  fix i assume \<open>i < length (sessions st)\<close> \<open>session_id (sessions st ! i) \<noteq> sid\<close>
  then show \<open>sessions (step st (Fail sid aid)) ! i = sessions st ! i\<close>
    by (simp add: fail_def failure_placeholder_def updateArtifact_nth)
next
  fix i assume \<open>i < length (sessions st)\<close>
  then show \<open>length (artifacts (sessions (step st (Fail sid aid)) ! i))
           = length (artifacts (sessions st ! i))\<close>
    by (simp add: fail_def failure_placeholder_def updateArtifact_nth)
next
  fix i j assume \<open>i < length (sessions st)\<close> \<open>j < length (artifacts (sessions st ! i))\<close>
  then show \<open>artifacts (sessions (step st (Fail sid aid)) ! i) ! j =
              (if session_id (sessions st ! i) = sid
                  \<and> artifact_id (artifacts (sessions st ! i) ! j) = aid
               then (artifacts (sessions st ! i) ! j)\<lparr>html := ''<div style="padding:20px; color:red">Generation Failed</div>'', status := Error\<rparr>
               else artifacts (sessions st ! i) ! j)\<close>
    by (simp add: fail_def failure_placeholder_def updateArtifact_nth)
next
  assume a: \<open>(\<forall>s \<in> set prev. session_id s \<noteq> sid) \<and> sessions st = prev @ [sess]
        \<and> session_id sess = sid
        \<and> map artifact_id (artifacts sess) = map artifact_id (placeholderArtifacts sid)
        \<and> cleanup (stream_text c0) \<noteq> [] \<and> cleanup (stream_text c2) \<noteq> []
        \<and> es \<in> interleavings (task_events sid [(c0, Ended), (c1, Threw), (c2, Ended)])\<close>
  then have ids: \<open>map artifact_id (artifacts sess) = [sid @ ''_0'', sid @ ''_1'', sid @ ''_2'']\<close>
    by (simp only: placeholder_ids)
  then obtain a0 a1 a2 where arts: \<open>artifacts sess = [a0, a1, a2]\<close>
    by (rule three_artifacts)
  from a have \<open>sessions (run st es)
           = prev @ [sess\<lparr>artifacts :=
                 map (\<lambda>(art, s). foldl art_step art (generateArtifact sid (artifact_id art) s))
                     (zip (artifacts sess) [(c0, Ended), (c1, Threw), (c2, Ended)])\<rparr>]\<close>
    by (intro isolation_scenario) simp_all
  then have res: \<open>sessions (run st es)
           = prev @ [sess\<lparr>artifacts :=
                 [a0\<lparr>html := cleanup (stream_text c0), status := Complete\<rparr>,
                  a1\<lparr>html := ''<div style="padding:20px; color:red">Generation Failed</div>'', status := Error\<rparr>,
                  a2\<lparr>html := cleanup (stream_text c2), status := Complete\<rparr>]\<rparr>]\<close>
    using a by (simp add: arts task_ended task_threw failure_placeholder_def del: generateArtifact.simps)
  show \<open>butlast (sessions (run st es)) = prev\<close> by (simp add: res)
  show \<open>map status (artifacts (last (sessions (run st es)))) = [Complete, Error, Complete]\<close>
    by (simp add: res)
  show \<open>map html (artifacts (last (sessions (run st es))))
              = [cleanup (stream_text c0), ''<div style="padding:20px; color:red">Generation Failed</div>'', cleanup (stream_text c2)]\<close>
    by (simp add: res)
  show \<open>map styleName (artifacts (last (sessions (run st es)))) = map styleName (artifacts sess)\<close>
    by (simp add: res arts)
qed

theorem C9_task_failure_is_local_witness:
  "sessions (run initial_state [CreateSession ''s'' ''p'' [] 0 0, ApplyStyles ''s'' (StyleArray fallback_styles)])
     = [] @ [last (sessions (run initial_state
                [CreateSession ''s'' ''p'' [] 0 0, ApplyStyles ''s'' (StyleArray fallback_styles)]))]
   \<and> [StreamUpdate ''s'' ''s_0'' ''<p>a</p>'', StreamUpdate ''s'' ''s_1'' ''x'',
       StreamUpdate ''s'' ''s_2'' ''<p>c</p>'', Fail ''s'' ''s_1'',
       Finalize ''s'' ''s_2'' ''<p>c</p>'', Finalize ''s'' ''s_0'' ''<p>a</p>'']
       \<in> interleavings (task_events ''s''
            [([Some ''<p>a</p>''], Ended), ([Some ''x''], Threw), ([Some ''<p>c</p>''], Ended)])
   \<and> map status (artifacts (last (sessions
         (run (run initial_state [CreateSession ''s'' ''p'' [] 0 0, ApplyStyles ''s'' (StyleArray fallback_styles)])
            [StreamUpdate ''s'' ''s_0'' ''<p>a</p>'', StreamUpdate ''s'' ''s_1'' ''x'',
             StreamUpdate ''s'' ''s_2'' ''<p>c</p>'', Fail ''s'' ''s_1'',
             Finalize ''s'' ''s_2'' ''<p>c</p>'', Finalize ''s'' ''s_0'' ''<p>a</p>'']))))
       = [Complete, Error, Complete]
   \<and> session_id (sessions (run initial_state
         [CreateSession ''r'' ''o'' [] 0 0, CreateSession ''s'' ''p'' [] 1 1]) ! 0) \<noteq> ''s''
   \<and> sessions (step (run initial_state
         [CreateSession ''r'' ''o'' [] 0 0, CreateSession ''s'' ''p'' [] 1 1]) (Fail ''s'' ''s_1'')) ! 0
       = sessions (run initial_state
         [CreateSession ''r'' ''o'' [] 0 0, CreateSession ''s'' ''p'' [] 1 1]) ! 0"
proof -
  let ?st = "run initial_state [CreateSession ''s'' ''p'' [] 0 0, ApplyStyles ''s'' (StyleArray fallback_styles)]"
  let ?es = "[StreamUpdate ''s'' ''s_0'' ''<p>a</p>'', StreamUpdate ''s'' ''s_1'' ''x'',
       StreamUpdate ''s'' ''s_2'' ''<p>c</p>'', Fail ''s'' ''s_1'',
       Finalize ''s'' ''s_2'' ''<p>c</p>'', Finalize ''s'' ''s_0'' ''<p>a</p>'']"
  let ?sess = "last (sessions ?st)"
  let ?two = "run initial_state [CreateSession ''r'' ''o'' [] 0 0, CreateSession ''s'' ''p'' [] 1 1]"
  have h0: "\<forall>s \<in> set []. session_id s \<noteq> ''s''" by simp
  have h1: "sessions ?st = [] @ [?sess]" by code_simp
  have h2: "session_id ?sess = ''s''" by code_simp
  have h3: "map artifact_id (artifacts ?sess) = map artifact_id (placeholderArtifacts ''s'')"
    by code_simp
  have h4: "cleanup (stream_text [Some ''<p>a</p>'']) \<noteq> []" by code_simp
  have h5: "cleanup (stream_text [Some ''<p>c</p>'']) \<noteq> []" by code_simp
  have h6: "?es \<in> interleavings (task_events ''s''
            [([Some ''<p>a</p>''], Ended), ([Some ''x''], Threw), ([Some ''<p>c</p>''], Ended)])"
    by (simp add: task_events_3 stream_text_def Cons_in_shuffles_iff)
  from C9_task_failure_is_local [where st = ?st and sid = "''s''" and aid = "''s_1''"
         and chunks = "[Some ''x'']" and prev = "[]" and sess = ?sess
         and ?c0.0 = "[Some ''<p>a</p>'']" and ?c1.0 = "[Some ''x'']"
         and ?c2.0 = "[Some ''<p>c</p>'']" and es = ?es] h0 h1 h2 h3 h4 h5 h6
  have a: "map status (artifacts (last (sessions (run ?st ?es)))) = [Complete, Error, Complete]"
    by blast
  have k1: "0 < length (sessions ?two)" by code_simp
  have k2: "session_id (sessions ?two ! 0) \<noteq> ''s''" by code_simp
  from C9_task_failure_is_local [where st = ?two and sid = "''s''" and aid = "''s_1''"] k1 k2
  have b: "sessions (step ?two (Fail ''s'' ''s_1'')) ! 0 = sessions ?two ! 0"
    by blast
  from h1 h6 a k2 b show ?thesis by blast
qed

end
